theory Spec2Isabelle
  imports Main
begin

section \<open>Data model of teebuff.c\<close>

text \<open>
  Stream offsets (\<^verbatim>\<open>off_t\<close>), byte counts (\<^verbatim>\<open>size_t\<close>) and descriptors (\<^verbatim>\<open>int\<close>) are
  modelled as mathematical integers: the model is exact as long as the values stay in the
  ranges of the C types, which they do for streams shorter than \<open>2 ^ 63\<close> bytes. The two
  places where the source converts a difference of offsets, which could be negative, to
  \<^verbatim>\<open>size_t\<close> are written out with \<open>size_t\<close> (reduction modulo \<open>2 ^ 64\<close>). C's \<^verbatim>\<open>/\<close> and
  \<^verbatim>\<open>%\<close> truncate; on the non-negative offsets and the positive buffer size they are
  applied to they agree with \<open>div\<close> and \<open>mod\<close>. \<^verbatim>\<open>EPIPE\<close> has its value on Linux.
\<close>

definition EPIPE :: int where
  "EPIPE = 32"

definition newline :: char where
  "newline = CHR 0x0A"

definition size_t :: "int \<Rightarrow> int" where
  "size_t x = x mod 2 ^ 64"

text \<open>\<^verbatim>\<open>struct sink_info\<close>.\<close>

record sink_info =
  name :: string
  fd :: int
  pos_written :: int
  pos_to_write :: int
  active :: bool

text \<open>
  The ways the process can stop abnormally: \<^verbatim>\<open>err\<close>/\<^verbatim>\<open>exit\<close> with a status and a
  diagnostic, or a read of pool memory that holds no defined byte (a chunk that is freed
  or was never allocated, a byte that was never written, an address before chunk 0).
\<close>

datatype diag =
  Realloc_bank
  | Alloc_buffer int int
  | No_newline_found int
  | Error_writing string
  | Read_stdin
  | Select_call
  | Error_opening string
  | Malloc_files

datatype failure = Fatal int diag | Undefined_read

text \<open>
  The global variables of the program (\<^verbatim>\<open>buffer_size\<close>, \<^verbatim>\<open>buffers\<close>,
  \<^verbatim>\<open>source_pos_read\<close>, \<^verbatim>\<open>opt_scatter\<close>, \<^verbatim>\<open>opt_line\<close>), the function-local statics of
  \<^verbatim>\<open>memory_allocate\<close> and \<^verbatim>\<open>memory_free\<close>, and the part of the operating system the program
  talks to: the unread rest of standard input, the bytes each descriptor has accepted so
  far, and the list of \<^verbatim>\<open>write(2)\<close> calls issued, each with its descriptor and length.

  \<open>buffers st i off\<close> is the byte at offset \<open>off\<close> of chunk \<open>i\<close>, or \<open>None\<close> when that byte
  cannot be read (see above).
\<close>

record tee =
  buffer_size :: int
  opt_scatter :: bool
  opt_line :: bool
  source_pos_read :: int
  buffers :: "int \<Rightarrow> int \<Rightarrow> char option"
  pool_size :: nat
  allocated_pool_end :: int
  pool_begin :: int
  stdin_rest :: "char list"
  outs :: "int \<Rightarrow> char list"
  write_calls :: "(int \<times> int) list"

text \<open>\<^verbatim>\<open>struct buffer\<close>: a pointer into the pool, as chunk index and offset, and a size.\<close>

type_synonym buffer = "(int \<times> int) \<times> int"

text \<open>What the operating system answers to \<^verbatim>\<open>read(2)\<close> and \<^verbatim>\<open>write(2)\<close>.\<close>

datatype read_result = Read_failed | Read_ok nat

datatype write_result = Write_failed int | Write_ok nat

section \<open>Buffer pool\<close>

text \<open>
  The pool memory after the chunks \<open>lo \<le> i < hi\<close> have been given fresh memory by
  \<^verbatim>\<open>malloc\<close>, or have been released by \<^verbatim>\<open>free\<close>: in both cases they hold no defined byte.
\<close>

definition clear_chunks ::
  "int \<Rightarrow> int \<Rightarrow> (int \<Rightarrow> int \<Rightarrow> char option)
     \<Rightarrow> int \<Rightarrow> int \<Rightarrow> char option" where
  "clear_chunks lo hi bufs i off = (if lo \<le> i \<and> i < hi then None else bufs i off)"

text \<open>
  The pool memory after \<^verbatim>\<open>read(2)\<close> has stored the bytes \<open>d\<close> from offset \<open>pool_offset\<close> of
  chunk \<open>pool\<close> on, the chunk that \<^verbatim>\<open>memory_allocate\<close> has just been asked for.
\<close>

definition store_bytes ::
  "int \<Rightarrow> int \<Rightarrow> char list \<Rightarrow> (int \<Rightarrow> int \<Rightarrow> char option)
     \<Rightarrow> int \<Rightarrow> int \<Rightarrow> char option" where
  "store_bytes pool pool_offset d bufs i off =
     (if i = pool \<and> pool_offset \<le> off \<and> off < pool_offset + int (length d)
      then Some (d ! nat (off - pool_offset)) else bufs i off)"

text \<open>The bank resizing loop of \<^verbatim>\<open>memory_allocate\<close>.\<close>

function grow_bank :: "int \<Rightarrow> nat \<Rightarrow> nat" where
  "grow_bank pool ps =
     (if pool \<ge> int ps then grow_bank pool (if ps = 0 then 1 else ps * 2) else ps)"
  by pat_completeness auto
termination
  by (relation "measure (\<lambda>(pool, ps). nat (pool + 1 - int ps))") auto

declare grow_bank.simps [simp del]

text \<open>
  \<^verbatim>\<open>memory_allocate\<close>. The flag \<open>alloc_ok\<close> says whether \<^verbatim>\<open>realloc\<close> and \<^verbatim>\<open>malloc\<close>
  succeed in this call. A fresh chunk holds no defined byte.
\<close>

definition memory_allocate :: "bool \<Rightarrow> int \<Rightarrow> tee \<Rightarrow> failure + tee" where
  "memory_allocate alloc_ok pool st =
     (if pool < allocated_pool_end st then Inr st
      else if pool \<ge> int (pool_size st) \<and> \<not> alloc_ok then Inl (Fatal 1 Realloc_bank)
      else if \<not> alloc_ok then
        Inl (Fatal 1 (Alloc_buffer (buffer_size st) (allocated_pool_end st)))
      else Inr (st\<lparr>buffers := clear_chunks (allocated_pool_end st) (pool + 1) (buffers st),
                   pool_size := grow_bank pool (pool_size st),
                   allocated_pool_end := pool + 1\<rparr>))"

text \<open>\<^verbatim>\<open>memory_free\<close>: the chunks \<open>pool_begin \<le> i < pool_end\<close> are released.\<close>

definition memory_free :: "int \<Rightarrow> tee \<Rightarrow> tee" where
  "memory_free pos st =
     (let pool_end = pos div buffer_size st
      in st\<lparr>buffers := clear_chunks (pool_begin st) pool_end (buffers st),
            pool_begin := pool_end\<rparr>)"

definition source_buffer :: "bool \<Rightarrow> int \<Rightarrow> tee \<Rightarrow> failure + (buffer \<times> tee)" where
  "source_buffer alloc_ok pos st =
     (let pool = pos div buffer_size st;
          pool_offset = pos mod buffer_size st
      in case memory_allocate alloc_ok pool st of
           Inl f \<Rightarrow> Inl f
         | Inr st' \<Rightarrow> Inr (((pool, pool_offset), buffer_size st - pool_offset), st'))"

definition sink_buffer :: "tee \<Rightarrow> sink_info \<Rightarrow> buffer" where
  "sink_buffer st si =
     (let pool = pos_written si div buffer_size st;
          pool_offset = pos_written si mod buffer_size st;
          source_bytes = size_t (pos_to_write si - pos_written si)
      in ((pool, pool_offset), min (buffer_size st - pool_offset) source_bytes))"

text \<open>
  \<^verbatim>\<open>*sink_pointer(pos)\<close>: the byte the returned pointer refers to. For a negative offset
  the pointer lies before chunk 0.
\<close>

definition sink_pointer :: "tee \<Rightarrow> int \<Rightarrow> char option" where
  "sink_pointer st pos =
     (if pos < 0 then None
      else buffers st (pos div buffer_size st) (pos mod buffer_size st))"

section \<open>Source reader\<close>

text \<open>
  \<^verbatim>\<open>source_read\<close>. \<^verbatim>\<open>read(2)\<close> either fails or delivers at least one and at most \<open>b.size\<close>
  bytes while input remains, and 0 bytes at end of file; \<open>Read_ok k\<close> makes it deliver at
  most \<open>k + 1\<close> bytes.
\<close>

definition source_read :: "bool \<Rightarrow> read_result \<Rightarrow> tee \<Rightarrow> failure + (int \<times> tee)" where
  "source_read alloc_ok rd st =
     (case source_buffer alloc_ok (source_pos_read st) st of
        Inl f \<Rightarrow> Inl f
      | Inr (((pool, pool_offset), sz), st') \<Rightarrow>
          (case rd of
             Read_failed \<Rightarrow> Inl (Fatal 3 Read_stdin)
           | Read_ok k \<Rightarrow>
               (let d = take (min (Suc k) (nat sz)) (stdin_rest st');
                    n = int (length d)
                in Inr (n, st'\<lparr>buffers := store_bytes pool pool_offset d (buffers st'),
                               source_pos_read := source_pos_read st' + n,
                               stdin_rest := drop (length d) (stdin_rest st')\<rparr>))))"

section \<open>Sink scheduler\<close>

text \<open>The first loop of \<^verbatim>\<open>allocate_data_to_sinks\<close>: \<open>(pos_assigned, available_sinks)\<close>.\<close>

definition fresh_and_available :: "int set \<Rightarrow> sink_info list \<Rightarrow> int \<times> int" where
  "fresh_and_available sink_fds files =
     foldl (\<lambda>(pos_assigned, available_sinks) si.
              (max pos_assigned (pos_to_write si),
               if pos_written si = pos_to_write si \<and> fd si \<in> sink_fds
               then available_sinks + 1 else available_sinks))
           (0, 0) files"

text \<open>
  The backward scan of the efficient algorithm. The result is the new \<open>pos_assigned\<close>.
\<close>

function scan_backward :: "tee \<Rightarrow> int \<Rightarrow> int \<Rightarrow> int \<Rightarrow> failure + int" where
  "scan_backward st pos_assigned data_to_assign data_end =
     (case sink_pointer st data_end of
        None \<Rightarrow> Inl Undefined_read
      | Some c \<Rightarrow>
          if c = newline then Inr (data_end + 1)
          else if (data_end - 1) + 1 = pos_assigned
          then Inl (Fatal 1 (No_newline_found (data_to_assign - 1)))
          else scan_backward st pos_assigned data_to_assign (data_end - 1))"
  by pat_completeness auto
termination
  by (relation "measure (\<lambda>(st, pa, dta, data_end). nat (data_end + 1))")
     (auto simp: sink_pointer_def split: if_splits)

declare scan_backward.simps [simp del]

text \<open>
  The forward scan of the reliable algorithm. The result is \<open>Some\<close> of the new
  \<open>pos_assigned\<close>, or \<open>None\<close> when writing is deferred.
\<close>

function scan_forward :: "tee \<Rightarrow> int \<Rightarrow> int \<Rightarrow> int \<Rightarrow> int \<Rightarrow> failure + int option" where
  "scan_forward st pos_assigned data_per_sink data_end last_nl =
     (if data_end \<ge> source_pos_read st then
        (if last_nl \<noteq> - 1 then Inr (Some (last_nl + 1)) else Inr None)
      else
        (case sink_pointer st data_end of
           None \<Rightarrow> Inl Undefined_read
         | Some c \<Rightarrow>
             if c = newline then
               (if data_end - pos_assigned > data_per_sink then Inr (Some (data_end + 1))
                else scan_forward st pos_assigned data_per_sink (data_end + 1) data_end)
             else scan_forward st pos_assigned data_per_sink (data_end + 1) last_nl))"
  by pat_completeness auto
termination
  by (relation "measure (\<lambda>(st, pa, dps, data_end, last_nl). nat (source_pos_read st - data_end))")
     auto

declare scan_forward.simps [simp del]

definition cons_sink :: "sink_info \<Rightarrow> failure + sink_info list \<Rightarrow> failure + sink_info list" where
  "cons_sink si r = (case r of Inl f \<Rightarrow> Inl f | Inr sis \<Rightarrow> Inr (si # sis))"

text \<open>
  The second loop of \<^verbatim>\<open>allocate_data_to_sinks\<close>, over the sinks that remain, with the
  current values of \<open>pos_assigned\<close> and \<open>data_to_assign\<close>.
\<close>

fun assign_loop ::
  "tee \<Rightarrow> int set \<Rightarrow> int \<Rightarrow> int \<Rightarrow> int \<Rightarrow> int \<Rightarrow> int \<Rightarrow> sink_info list
     \<Rightarrow> failure + sink_info list" where
  "assign_loop st sink_fds available_data data_per_sink available_sinks
       pos_assigned data_to_assign [] = Inr []"
| "assign_loop st sink_fds available_data data_per_sink available_sinks
       pos_assigned data_to_assign (si # rest) =
     (if pos_written si = pos_to_write si \<and> fd si \<in> sink_fds then
        (let data_to_assign' =
               (if data_to_assign = 0
                then data_per_sink + available_data mod available_sinks
                else data_per_sink);
             si1 = si\<lparr>pos_written := pos_assigned\<rparr>
         in if opt_line st then
              (if available_data > buffer_size st div 2 then
                 (case scan_backward st pos_assigned data_to_assign'
                         (pos_assigned + data_to_assign' - 1) of
                    Inl f \<Rightarrow> Inl f
                  | Inr pos_assigned' \<Rightarrow>
                      cons_sink (si1\<lparr>pos_to_write := pos_assigned'\<rparr>)
                        (assign_loop st sink_fds available_data data_per_sink available_sinks
                           pos_assigned' data_to_assign' rest))
               else
                 (case scan_forward st pos_assigned data_per_sink pos_assigned (- 1) of
                    Inl f \<Rightarrow> Inl f
                  | Inr None \<Rightarrow> Inr (si1\<lparr>pos_to_write := pos_assigned\<rparr> # rest)
                  | Inr (Some pos_assigned') \<Rightarrow>
                      cons_sink (si1\<lparr>pos_to_write := pos_assigned'\<rparr>)
                        (assign_loop st sink_fds available_data data_per_sink available_sinks
                           pos_assigned' data_to_assign' rest)))
            else
              cons_sink (si1\<lparr>pos_to_write := pos_assigned + data_to_assign'\<rparr>)
                (assign_loop st sink_fds available_data data_per_sink available_sinks
                   (pos_assigned + data_to_assign') data_to_assign' rest))
      else
        cons_sink si
          (assign_loop st sink_fds available_data data_per_sink available_sinks
             pos_assigned data_to_assign rest))"

definition allocate_data_to_sinks ::
  "tee \<Rightarrow> int set \<Rightarrow> sink_info list \<Rightarrow> failure + sink_info list" where
  "allocate_data_to_sinks st sink_fds files =
     (if \<not> opt_scatter st then
        Inr (map (\<lambda>si. si\<lparr>pos_to_write := source_pos_read st\<rparr>) files)
      else
        (let (pos_assigned, available_sinks) = fresh_and_available sink_fds files
         in if available_sinks = 0 then Inr files
            else
              (let available_data = size_t (source_pos_read st - pos_assigned);
                   data_per_sink = available_data div available_sinks
               in assign_loop st sink_fds available_data data_per_sink available_sinks
                    pos_assigned 0 files)))"

section \<open>Writing to the sinks\<close>

text \<open>
  The \<open>n\<close> bytes that \<^verbatim>\<open>write(2)\<close> takes from a chunk, from offset \<open>off\<close> on; \<open>None\<close> when
  one of them is not a defined byte.
\<close>

fun read_bytes :: "(int \<Rightarrow> char option) \<Rightarrow> int \<Rightarrow> nat \<Rightarrow> char list option" where
  "read_bytes chunk off 0 = Some []"
| "read_bytes chunk off (Suc n) =
     (case chunk off of
        None \<Rightarrow> None
      | Some c \<Rightarrow> map_option ((#) c) (read_bytes chunk (off + 1) n))"

text \<open>
  The body of the write loop of \<^verbatim>\<open>sink_write\<close> for a sink whose descriptor is set in
  \<open>sink_fds\<close>: one \<^verbatim>\<open>write(2)\<close> call of the window given by \<open>sink_buffer\<close>. The operating
  system answers with \<open>wr\<close>: \<open>Write_failed e\<close> is a return value of \<open>-1\<close> with \<open>errno = e\<close>,
  \<open>Write_ok k\<close> accepts at most \<open>k\<close> bytes. The result is the updated sink, the number of
  bytes added to \<open>written\<close>, and the new state.

  When the window holds a byte that is not defined, the C program hands that memory to
  \<^verbatim>\<open>write(2)\<close> and goes on; the model ends the run there with \<open>Undefined_read\<close>. A run of
  the model that returns has therefore made no such read, and a property of the bytes
  delivered by the runs that return says nothing about the runs that do not: that a run
  never ends with \<open>Undefined_read\<close> is stated and proved separately (lemma \<open>run_defined\<close>
  for replicate mode).
\<close>

definition sink_write_one ::
  "(int \<Rightarrow> write_result) \<Rightarrow> sink_info \<Rightarrow> tee \<Rightarrow> failure + (sink_info \<times> int \<times> tee)" where
  "sink_write_one wr si st =
     (case sink_buffer st si of
        ((pool, pool_offset), sz) \<Rightarrow>
          (let st1 = st\<lparr>write_calls := write_calls st @ [(fd si, sz)]\<rparr>
           in case wr (fd si) of
                Write_failed e \<Rightarrow>
                  if e = EPIPE then Inr (si\<lparr>active := False\<rparr>, 0, st1)
                  else Inl (Fatal 2 (Error_writing (name si)))
              | Write_ok k \<Rightarrow>
                  (let n = min (int k) sz
                   in case read_bytes (buffers st pool) pool_offset (nat n) of
                        None \<Rightarrow> Inl Undefined_read
                      | Some bytes \<Rightarrow>
                          Inr (si\<lparr>pos_written := pos_written si + n\<rparr>, n,
                               st1\<lparr>outs := (outs st1)
                                      (fd si := outs st1 (fd si) @ bytes)\<rparr>))))"

definition cons_result ::
  "sink_info \<Rightarrow> failure + (sink_info list \<times> int \<times> int \<times> tee)
     \<Rightarrow> failure + (sink_info list \<times> int \<times> int \<times> tee)" where
  "cons_result si r =
     (case r of
        Inl f \<Rightarrow> Inl f
      | Inr (sis, min_pos, written, st) \<Rightarrow> Inr (si # sis, min_pos, written, st))"

text \<open>
  The write loop of \<^verbatim>\<open>sink_write\<close> over the sinks that remain, with the current values of
  \<open>min_pos\<close> and \<open>written\<close>.
\<close>

fun write_loop ::
  "(int \<Rightarrow> write_result) \<Rightarrow> int set \<Rightarrow> sink_info list \<Rightarrow> int \<Rightarrow> int \<Rightarrow> tee
     \<Rightarrow> failure + (sink_info list \<times> int \<times> int \<times> tee)" where
  "write_loop wr sink_fds [] min_pos written st = Inr ([], min_pos, written, st)"
| "write_loop wr sink_fds (si # rest) min_pos written st =
     (if fd si \<in> sink_fds then
        (case sink_write_one wr si st of
           Inl f \<Rightarrow> Inl f
         | Inr (si', n, st') \<Rightarrow>
             cons_result si'
               (write_loop wr sink_fds rest
                  (if active si' then min min_pos (pos_written si') else min_pos)
                  (written + n) st'))
      else
        cons_result si
          (write_loop wr sink_fds rest
             (if active si then min min_pos (pos_written si) else min_pos)
             written st))"

text \<open>
  \<^verbatim>\<open>sink_write\<close> up to its last statement: the scheduling pass and the write loop. The
  result carries the \<open>min_pos\<close> that \<^verbatim>\<open>sink_write\<close> then hands to \<^verbatim>\<open>memory_free\<close>.
\<close>

definition write_pass ::
  "(int \<Rightarrow> write_result) \<Rightarrow> int set \<Rightarrow> sink_info list \<Rightarrow> tee
     \<Rightarrow> failure + (sink_info list \<times> int \<times> int \<times> tee)" where
  "write_pass wr sink_fds files st =
     (case allocate_data_to_sinks st sink_fds files of
        Inl f \<Rightarrow> Inl f
      | Inr files1 \<Rightarrow> write_loop wr sink_fds files1 (source_pos_read st) 0 st)"

definition sink_write ::
  "(int \<Rightarrow> write_result) \<Rightarrow> int set \<Rightarrow> sink_info list \<Rightarrow> tee
     \<Rightarrow> failure + (sink_info list \<times> int \<times> tee)" where
  "sink_write wr sink_fds files st =
     (case write_pass wr sink_fds files st of
        Inl f \<Rightarrow> Inl f
      | Inr (files', min_pos, written, st') \<Rightarrow> Inr (files', written, memory_free min_pos st'))"

section \<open>Event loop\<close>

text \<open>
  What the operating system does during one iteration of the loop of \<^verbatim>\<open>main\<close>: whether
  \<^verbatim>\<open>select\<close> succeeds, which descriptors it reports ready, and the answers to the calls
  that follow.
\<close>

record loop_env =
  select_ok :: bool
  stdin_ready :: bool
  ready :: "int set"
  wr :: "int \<Rightarrow> write_result"
  rd :: read_result
  alloc_ok :: bool

text \<open>The local state of \<^verbatim>\<open>main\<close>: \<open>files\<close>, \<open>reached_eof\<close>, and the globals.\<close>

type_synonym config = "sink_info list \<times> bool \<times> tee"

datatype loop_result = Continue config | Return int config | Abort failure

definition pending :: "tee \<Rightarrow> sink_info \<Rightarrow> bool" where
  "pending st si \<longleftrightarrow> pos_written si < source_pos_read st \<and> active si"

text \<open>The test that ends the loop: \<^verbatim>\<open>reached_eof && active_fds == 0\<close>.\<close>

definition finished :: "config \<Rightarrow> bool" where
  "finished c =
     (case c of (files, reached_eof, st) \<Rightarrow>
        reached_eof \<and> length (filter (pending st) files) = 0)"

text \<open>One iteration of the loop, from \<^verbatim>\<open>select\<close> on.\<close>

definition iteration :: "loop_env \<Rightarrow> config \<Rightarrow> loop_result" where
  "iteration e c =
     (case c of (files, reached_eof, st) \<Rightarrow>
        (let source_fds = (\<not> reached_eof);
             sink_fds = set (map fd (filter (pending st) files))
         in if \<not> select_ok e then Abort (Fatal 3 Select_call)
            else
              (let source_fds' = (source_fds \<and> stdin_ready e);
                   sink_fds' = sink_fds \<inter> ready e
               in case sink_write (wr e) sink_fds' files st of
                    Inl f \<Rightarrow> Abort f
                  | Inr (files', written, st') \<Rightarrow>
                      if written > 0 then Continue (files', reached_eof, st')
                      else if source_fds' then
                        (case source_read (alloc_ok e) (rd e) st' of
                           Inl f \<Rightarrow> Abort f
                         | Inr (n, st'') \<Rightarrow>
                             Continue (files', (if n = 0 then True else reached_eof), st''))
                      else Continue (files', reached_eof, st'))))"

text \<open>
  The loop, run against a finite list of answers of the operating system. \<open>Continue\<close>
  is returned when the answers are used up before the loop has ended.
\<close>

fun run :: "loop_env list \<Rightarrow> config \<Rightarrow> loop_result" where
  "run [] c = (if finished c then Return 0 c else Continue c)"
| "run (e # es) c =
     (if finished c then Return 0 c
      else (case iteration e c of Continue c' \<Rightarrow> run es c' | r \<Rightarrow> r))"

text \<open>
  The start of \<^verbatim>\<open>main\<close> after option parsing. Each output file comes with the result of
  its \<^verbatim>\<open>open(2)\<close> call.
\<close>

fun open_files :: "(string \<times> int) list \<Rightarrow> failure + sink_info list" where
  "open_files [] = Inr []"
| "open_files ((nm, d) # rest) =
     (if d < 0 then Inl (Fatal 2 (Error_opening nm))
      else cons_sink \<lparr>name = nm, fd = d, pos_written = 0, pos_to_write = 0, active = True\<rparr>
             (open_files rest))"

definition init_tee :: "int \<Rightarrow> bool \<Rightarrow> bool \<Rightarrow> char list \<Rightarrow> tee" where
  "init_tee b scatter line input =
     \<lparr>buffer_size = b, opt_scatter = scatter, opt_line = line, source_pos_read = 0,
      buffers = (\<lambda>_ _. None), pool_size = 0, allocated_pool_end = 0, pool_begin = 0,
      stdin_rest = input, outs = (\<lambda>_. []), write_calls = []\<rparr>"

text \<open>
  \<^verbatim>\<open>main\<close>, given the values set by the options, whether \<^verbatim>\<open>malloc\<close> of the \<open>files\<close>
  array succeeds, the output files, the content of standard input, and the answers of the
  operating system.
\<close>

definition main ::
  "int \<Rightarrow> bool \<Rightarrow> bool \<Rightarrow> bool \<Rightarrow> (string \<times> int) list \<Rightarrow> char list \<Rightarrow> loop_env list
     \<Rightarrow> loop_result" where
  "main b scatter line malloc_ok args input es =
     (if \<not> malloc_ok then Abort (Fatal 1 Malloc_files)
      else case open_files args of
             Inl f \<Rightarrow> Abort f
           | Inr files \<Rightarrow> run es (files, False, init_tee b scatter line input))"

section \<open>Example inputs\<close>

text \<open>
  A state in which the pool holds the given bytes at the stream offsets \<open>0, 1, \<dots>\<close>, all
  of standard input has been read, and nothing has been written or freed.
\<close>

definition tee_holding :: "int \<Rightarrow> bool \<Rightarrow> bool \<Rightarrow> char list \<Rightarrow> tee" where
  "tee_holding b scatter line bytes =
     \<lparr>buffer_size = b, opt_scatter = scatter, opt_line = line,
      source_pos_read = int (length bytes),
      buffers = (\<lambda>i off. if 0 \<le> i \<and> 0 \<le> off \<and> off < b \<and> i * b + off < int (length bytes)
                          then Some (bytes ! nat (i * b + off)) else None),
      pool_size = grow_bank (int (length bytes) div b) 0,
      allocated_pool_end = int (length bytes) div b + 1, pool_begin = 0,
      stdin_rest = [], outs = (\<lambda>_. []), write_calls = []\<rparr>"

definition sink_at :: "string \<Rightarrow> int \<Rightarrow> int \<Rightarrow> int \<Rightarrow> bool \<Rightarrow> sink_info" where
  "sink_at nm d pw ptw act =
     \<lparr>name = nm, fd = d, pos_written = pw, pos_to_write = ptw, active = act\<rparr>"

text \<open>
  An iteration in which \<^verbatim>\<open>select\<close> reports standard input and the given descriptors
  ready, writes are answered by \<open>wa\<close>, a read delivers at most \<open>k + 1\<close> bytes, and memory
  allocation succeeds.
\<close>

definition env_ready :: "int set \<Rightarrow> (int \<Rightarrow> write_result) \<Rightarrow> nat \<Rightarrow> loop_env" where
  "env_ready fds wa k =
     \<lparr>select_ok = True, stdin_ready = True, ready = fds, wr = wa, rd = Read_ok k,
      alloc_ok = True\<rparr>"

text \<open>The input of the first scenario of the specification.\<close>

definition hello_world :: "char list" where
  "hello_world = ''hello'' @ [newline] @ ''world'' @ [newline]"

section \<open>Invariant of the loop in replicate mode\<close>

text \<open>
  The pool and the reader, relative to the whole content \<open>input\<close> of standard input:
  \<open>source_pos_read\<close> bytes have been read, the rest is still to come, and every stream
  offset from the first chunk not yet released up to \<open>source_pos_read\<close> can be read from
  the pool and holds the byte of the input at that offset.
\<close>

definition pool_ok :: "char list \<Rightarrow> tee \<Rightarrow> bool" where
  "pool_ok input st \<longleftrightarrow>
     0 < buffer_size st \<and> 0 \<le> source_pos_read st
     \<and> source_pos_read st \<le> int (length input)
     \<and> stdin_rest st = drop (nat (source_pos_read st)) input
     \<and> source_pos_read st \<le> allocated_pool_end st * buffer_size st
     \<and> 0 \<le> pool_begin st
     \<and> pool_begin st * buffer_size st \<le> source_pos_read st
     \<and> (\<forall>pos. pool_begin st * buffer_size st \<le> pos \<and> pos < source_pos_read st
            \<longrightarrow> sink_pointer st pos = Some (input ! nat pos))"

text \<open>
  A sink: its descriptor has received the first \<open>pos_written\<close> bytes of the input, and
  while it is active the chunk of \<open>pos_written\<close> has not been released.
\<close>

definition sink_ok :: "char list \<Rightarrow> tee \<Rightarrow> sink_info \<Rightarrow> bool" where
  "sink_ok input st si \<longleftrightarrow>
     0 \<le> pos_written si \<and> pos_written si \<le> source_pos_read st
     \<and> outs st (fd si) = take (nat (pos_written si)) input
     \<and> (active si \<longrightarrow> pool_begin st * buffer_size st \<le> pos_written si)"

definition replicate_inv :: "char list \<Rightarrow> config \<Rightarrow> bool" where
  "replicate_inv input c =
     (case c of (files, reached_eof, st) \<Rightarrow>
        \<not> opt_scatter st \<and> distinct (map fd files) \<and> pool_ok input st
        \<and> (reached_eof \<longrightarrow> stdin_rest st = [])
        \<and> (\<forall>si \<in> set files. sink_ok input st si))"

section \<open>Properties of the model\<close>

subsection \<open>The write loop\<close>

lemma cons_sink_simps [simp]:
  "cons_sink si (Inl f) = Inl f"
  "cons_sink si (Inr sis) = Inr (si # sis)"
  by (simp_all add: cons_sink_def)

lemma cons_sink_eq_Inr:
  "cons_sink si r = Inr sis' \<longleftrightarrow> (\<exists>sis. r = Inr sis \<and> sis' = si # sis)"
  by (cases r) auto

lemma cons_result_simps [simp]:
  "cons_result si (Inl f) = Inl f"
  "cons_result si (Inr (sis, m, w, st)) = Inr (si # sis, m, w, st)"
  by (simp_all add: cons_result_def)

lemma cons_result_eq_Inr:
  "cons_result si r = Inr (sis', m, w, st) \<longleftrightarrow> (\<exists>sis. r = Inr (sis, m, w, st) \<and> sis' = si # sis)"
  by (cases r) auto

lemma sink_write_one_cases:
  assumes "sink_write_one wa si st = Inr (si', n, st')"
    and "sink_buffer st si = ((pool, off0), sz)"
  shows "(wa (fd si) = Write_failed EPIPE \<and> si' = si\<lparr>active := False\<rparr> \<and> n = 0
            \<and> st' = st\<lparr>write_calls := write_calls st @ [(fd si, sz)]\<rparr>)
       \<or> (\<exists>k bytes. wa (fd si) = Write_ok k \<and> n = min (int k) sz
            \<and> si' = si\<lparr>pos_written := pos_written si + n\<rparr>
            \<and> read_bytes (buffers st pool) off0 (nat n) = Some bytes
            \<and> st' = st\<lparr>write_calls := write_calls st @ [(fd si, sz)],
                       outs := (outs st)(fd si := outs st (fd si) @ bytes)\<rparr>)"
  using assms
  by (auto simp: sink_write_one_def Let_def
      split: prod.splits write_result.splits if_splits option.splits)

lemma sink_write_one_fields:
  assumes "sink_write_one wa si st = Inr (si', n, st')"
  shows "fd si' = fd si \<and> name si' = name si \<and> pos_to_write si' = pos_to_write si"
proof -
  obtain pool off0 sz where "sink_buffer st si = ((pool, off0), sz)"
    by (metis surj_pair)
  from sink_write_one_cases [OF assms this] show ?thesis by auto
qed

lemma write_loop_fields:
  "write_loop wa fds sis m w st = Inr (sis', m', w', st') \<Longrightarrow>
     map fd sis' = map fd sis \<and> map name sis' = map name sis
       \<and> map pos_to_write sis' = map pos_to_write sis"
proof (induction sis arbitrary: m w st sis')
  case Nil
  then show ?case by simp
next
  case (Cons si rest)
  show ?case
  proof (cases "fd si \<in> fds")
    case False
    with Cons.prems obtain tl where
      "write_loop wa fds rest (if active si then min m (pos_written si) else m) w st = Inr (tl, m', w', st')"
      and "sis' = si # tl"
      by (auto simp: cons_result_eq_Inr)
    with Cons.IH show ?thesis by auto
  next
    case True
    with Cons.prems obtain si1 n st1 tl where
      one: "sink_write_one wa si st = Inr (si1, n, st1)" and
      "write_loop wa fds rest (if active si1 then min m (pos_written si1) else m) (w + n) st1 = Inr (tl, m', w', st')"
      and "sis' = si1 # tl"
      by (auto simp: cons_result_eq_Inr split: sum.splits)
    moreover note sink_write_one_fields [OF one]
    ultimately show ?thesis using Cons.IH by auto
  qed
qed

lemma write_loop_ConsE:
  assumes "write_loop wa fds (si # rest) m w st = Inr (sis', m', w', st')"
  obtains si1 n st1 tl where "sis' = si1 # tl"
    and "write_loop wa fds rest (if active si1 then min m (pos_written si1) else m) (w + n) st1
           = Inr (tl, m', w', st')"
    and "(fd si \<notin> fds \<and> si1 = si \<and> n = 0 \<and> st1 = st)
           \<or> (fd si \<in> fds \<and> sink_write_one wa si st = Inr (si1, n, st1))"
  using assms
  by (cases "fd si \<in> fds") (auto simp: cons_result_eq_Inr split: sum.splits)

lemma write_loop_unchanged:
  "write_loop wa fds sis m w st = Inr (sis', m', w', st') \<Longrightarrow> j < length sis
     \<Longrightarrow> fd (sis ! j) \<notin> fds \<Longrightarrow> sis' ! j = sis ! j"
proof (induction sis arbitrary: m w st sis' j)
  case Nil
  then show ?case by simp
next
  case (Cons si rest)
  from Cons.prems(1) show ?case
  proof (rule write_loop_ConsE)
    fix si1 n st1 tl
    assume *: "sis' = si1 # tl"
      "write_loop wa fds rest (if active si1 then min m (pos_written si1) else m) (w + n) st1
         = Inr (tl, m', w', st')"
      "(fd si \<notin> fds \<and> si1 = si \<and> n = 0 \<and> st1 = st)
         \<or> (fd si \<in> fds \<and> sink_write_one wa si st = Inr (si1, n, st1))"
    show ?thesis
    proof (cases j)
      case 0
      with * Cons.prems show ?thesis by auto
    next
      case (Suc j')
      with * Cons.prems Cons.IH [OF *(2), of j'] show ?thesis by auto
    qed
  qed
qed

lemma Min_insert_min:
  "finite A \<Longrightarrow> Min (insert (min a b) A) = Min (insert (a::int) (insert b A))"
  by (cases "A = {}") (simp_all add: min.assoc)

lemma write_loop_min_pos:
  "write_loop wa fds sis m w st = Inr (sis', m', w', st') \<Longrightarrow>
     m' = Min (insert m (pos_written ` {s \<in> set sis'. active s}))"
proof (induction sis arbitrary: m w st sis')
  case Nil
  then show ?case by simp
next
  case (Cons si rest)
  from Cons.prems(1) show ?case
  proof (rule write_loop_ConsE)
    fix si1 n st1 tl
    assume *: "sis' = si1 # tl"
      "write_loop wa fds rest (if active si1 then min m (pos_written si1) else m) (w + n) st1
         = Inr (tl, m', w', st')"
    have fin: "finite (pos_written ` {s \<in> set tl. active s})" by simp
    show ?thesis
    proof (cases "active si1")
      case True
      then have "{s \<in> set sis'. active s} = insert si1 {s \<in> set tl. active s}"
        using *(1) by auto
      moreover from Cons.IH [OF *(2)] True
      have "m' = Min (insert (min m (pos_written si1)) (pos_written ` {s \<in> set tl. active s}))"
        by simp
      ultimately show ?thesis
        by (simp add: Min_insert_min [OF fin])
    next
      case False
      then have "{s \<in> set sis'. active s} = {s \<in> set tl. active s}"
        using *(1) by auto
      with Cons.IH [OF *(2)] False show ?thesis by simp
    qed
  qed
qed

lemma sink_write_one_frame:
  assumes "sink_write_one wa si st = Inr (si', n, st')"
  shows "st' = st\<lparr>write_calls := write_calls st', outs := outs st'\<rparr>"
proof -
  obtain pool off0 sz where "sink_buffer st si = ((pool, off0), sz)"
    by (metis surj_pair)
  from sink_write_one_cases [OF assms this] show ?thesis by auto
qed

lemma write_loop_frame:
  "write_loop wa fds sis m w st = Inr (sis', m', w', st') \<Longrightarrow>
     st' = st\<lparr>write_calls := write_calls st', outs := outs st'\<rparr>"
proof (induction sis arbitrary: m w st sis')
  case Nil
  then show ?case by simp
next
  case (Cons si rest)
  from Cons.prems(1) show ?case
  proof (rule write_loop_ConsE)
    fix si1 n st1 tl
    assume *: "sis' = si1 # tl"
      "write_loop wa fds rest (if active si1 then min m (pos_written si1) else m) (w + n) st1
         = Inr (tl, m', w', st')"
      "(fd si \<notin> fds \<and> si1 = si \<and> n = 0 \<and> st1 = st)
         \<or> (fd si \<in> fds \<and> sink_write_one wa si st = Inr (si1, n, st1))"
    from *(3) have "st1 = st\<lparr>write_calls := write_calls st1, outs := outs st1\<rparr>"
      using sink_write_one_frame by auto
    with Cons.IH [OF *(2)] show ?thesis
      by (metis tee.update_convs(10) tee.update_convs(11) tee.surjective)
  qed
qed

lemma frame_fields:
  assumes "st' = st\<lparr>write_calls := wc, outs := os\<rparr>"
  shows "buffer_size st' = buffer_size st" "opt_scatter st' = opt_scatter st"
    "opt_line st' = opt_line st" "source_pos_read st' = source_pos_read st"
    "buffers st' = buffers st" "pool_size st' = pool_size st"
    "allocated_pool_end st' = allocated_pool_end st" "pool_begin st' = pool_begin st"
    "stdin_rest st' = stdin_rest st"
  using assms by simp_all

lemmas sink_write_one_keeps = frame_fields [OF sink_write_one_frame]

lemmas write_loop_keeps = frame_fields [OF write_loop_frame]

lemma sink_write_one_calls:
  assumes "sink_write_one wa si st = Inr (si', n, st')"
  shows "write_calls st' = write_calls st @ [(fd si, snd (sink_buffer st si))]"
proof -
  obtain pool off0 sz where sb: "sink_buffer st si = ((pool, off0), sz)"
    by (metis surj_pair)
  from sink_write_one_cases [OF assms sb] sb show ?thesis by auto
qed

lemma write_loop_calls:
  "write_loop wa fds sis m w st = Inr (sis', m', w', st') \<Longrightarrow>
     write_calls st' = write_calls st
       @ map (\<lambda>si. (fd si, snd (sink_buffer st si))) (filter (\<lambda>si. fd si \<in> fds) sis)"
proof (induction sis arbitrary: m w st sis')
  case Nil
  then show ?case by simp
next
  case (Cons si rest)
  from Cons.prems(1) show ?case
  proof (rule write_loop_ConsE)
    fix si1 n st1 tl
    assume *: "sis' = si1 # tl"
      "write_loop wa fds rest (if active si1 then min m (pos_written si1) else m) (w + n) st1
         = Inr (tl, m', w', st')"
      "(fd si \<notin> fds \<and> si1 = si \<and> n = 0 \<and> st1 = st)
         \<or> (fd si \<in> fds \<and> sink_write_one wa si st = Inr (si1, n, st1))"
    have "buffer_size st1 = buffer_size st"
      using *(3) sink_write_one_keeps(1) by auto
    then have same: "sink_buffer st1 = sink_buffer st"
      by (simp add: sink_buffer_def fun_eq_iff)
    have "write_calls st1 = write_calls st
            @ (if fd si \<in> fds then [(fd si, snd (sink_buffer st si))] else [])"
      using *(3) sink_write_one_calls by auto
    with Cons.IH [OF *(2)] same show ?thesis by simp
  qed
qed

text \<open>
  C8. When the \<^verbatim>\<open>write\<close> to a ready sink fails, the rest of the write loop depends on
  \<^verbatim>\<open>errno\<close>. With \<^verbatim>\<open>EPIPE\<close> the loop goes on to the remaining sinks with \<open>min_pos\<close> and
  \<open>written\<close> as they were; of the sink only the \<open>active\<close> flag changes, to false, and of the
  state only the record of the call. With any other value the process stops with exit
  status 2.
\<close>

theorem write_failure_epipe_or_fatal:
  assumes "fd si \<in> sink_fds" and "wa (fd si) = Write_failed e"
  shows "write_loop wa sink_fds (si # rest) min_pos written st =
           (if e = EPIPE
            then cons_result (si\<lparr>active := False\<rparr>)
                   (write_loop wa sink_fds rest min_pos written
                      (st\<lparr>write_calls := write_calls st @ [(fd si, snd (sink_buffer st si))]\<rparr>))
            else Inl (Fatal 2 (Error_writing (name si))))"
  using assms by (simp add: sink_write_one_def split: prod.splits)

theorem write_failure_epipe_or_fatal_witness:
  "write_loop (\<lambda>_. Write_failed EPIPE) {3} [sink_at ''a'' 3 0 2 True] 0 0
       (tee_holding 4 False False ''ab'')
     = Inr ([sink_at ''a'' 3 0 2 False], 0, 0,
            (tee_holding 4 False False ''ab'')\<lparr>write_calls := [(3, 2)]\<rparr>)
   \<and> write_loop (\<lambda>_. Write_failed 5) {3} [sink_at ''a'' 3 0 2 True] 0 0
       (tee_holding 4 False False ''ab'')
     = Inl (Fatal 2 (Error_writing ''a''))"
  using write_failure_epipe_or_fatal [of "sink_at ''a'' 3 0 2 True" "{3}" "\<lambda>_. Write_failed EPIPE"
      EPIPE "[]" 0 0 "tee_holding 4 False False ''ab''"]
    write_failure_epipe_or_fatal [of "sink_at ''a'' 3 0 2 True" "{3}" "\<lambda>_. Write_failed 5"
      5 "[]" 0 0 "tee_holding 4 False False ''ab''"]
  by (simp add: sink_at_def tee_holding_def sink_buffer_def size_t_def EPIPE_def)

lemma memory_free_keeps:
  assumes "0 < buffer_size st" and "min_pos \<le> pos"
  shows "sink_pointer (memory_free min_pos st) pos = sink_pointer st pos"
proof -
  from assms have "min_pos div buffer_size st \<le> pos div buffer_size st"
    by (simp add: zdiv_mono1)
  then show ?thesis
    by (simp add: sink_pointer_def memory_free_def clear_chunks_def Let_def)
qed

text \<open>
  C3. When the scheduling pass and the write loop of \<^verbatim>\<open>sink_write\<close> have run without a
  fatal error, \<^verbatim>\<open>memory_free\<close> is called with \<open>min_pos\<close>, which is the minimum of
  \<open>source_pos_read\<close> and the \<open>pos_written\<close> of the sinks that are active after the loop.
  So \<open>min_pos\<close> exceeds the \<open>pos_written\<close> of no active sink, and every pool byte at or
  after the \<open>pos_written\<close> of an active sink is read after the call as it was before.
\<close>

theorem reclaim_watermark_min_active:
  assumes "write_pass wa sink_fds files st = Inr (files', min_pos, written, st')"
    and "0 < buffer_size st"
  shows "sink_write wa sink_fds files st = Inr (files', written, memory_free min_pos st')
     \<and> min_pos = Min (insert (source_pos_read st) (pos_written ` {si \<in> set files'. active si}))
     \<and> (\<forall>si \<in> set files'. active si \<longrightarrow>
           min_pos \<le> pos_written si
           \<and> (\<forall>pos \<ge> pos_written si.
                 sink_pointer (memory_free min_pos st') pos = sink_pointer st' pos))"
proof -
  from assms(1) obtain files1 where
    loop: "write_loop wa sink_fds files1 (source_pos_read st) 0 st
             = Inr (files', min_pos, written, st')"
    by (auto simp: write_pass_def split: sum.splits)
  have m: "min_pos = Min (insert (source_pos_read st) (pos_written ` {si \<in> set files'. active si}))"
    by (rule write_loop_min_pos [OF loop])
  have le: "min_pos \<le> pos_written si" if "si \<in> set files'" "active si" for si
    using that by (simp add: m)
  from write_loop_keeps(1) [OF loop] assms(2) have b: "0 < buffer_size st'" by simp
  have keep: "sink_pointer (memory_free min_pos st') pos = sink_pointer st' pos"
    if "si \<in> set files'" "active si" "pos_written si \<le> pos" for si pos
    using memory_free_keeps [OF b, of min_pos pos] le [OF that(1,2)] that(3) by simp
  show ?thesis
    using assms(1) m le keep by (simp add: sink_write_def)
qed

theorem reclaim_watermark_min_active_witness:
  "sink_write (\<lambda>_. Write_ok 1) {3}
       [sink_at ''a'' 3 1 1 True, sink_at ''b'' 4 0 0 False, sink_at ''c'' 5 2 2 True]
       (tee_holding 4 False False ''abc'')
     = Inr ([sink_at ''a'' 3 2 3 True, sink_at ''b'' 4 0 3 False, sink_at ''c'' 5 2 3 True], 1,
            memory_free 2 ((tee_holding 4 False False ''abc'')
               \<lparr>write_calls := [(3, 2)], outs := (\<lambda>_. [])(3 := ''b'')\<rparr>))"
proof -
  have h: "write_pass (\<lambda>_. Write_ok 1) {3}
       [sink_at ''a'' 3 1 1 True, sink_at ''b'' 4 0 0 False, sink_at ''c'' 5 2 2 True]
       (tee_holding 4 False False ''abc'')
     = Inr ([sink_at ''a'' 3 2 3 True, sink_at ''b'' 4 0 3 False, sink_at ''c'' 5 2 3 True], 2, 1,
            (tee_holding 4 False False ''abc'')
               \<lparr>write_calls := [(3, 2)], outs := (\<lambda>_. [])(3 := ''b'')\<rparr>)"
    by (simp add: write_pass_def allocate_data_to_sinks_def sink_at_def tee_holding_def
        sink_write_one_def sink_buffer_def size_t_def Let_def eval_nat_numeral)
  have b: "0 < buffer_size (tee_holding 4 False False ''abc'')"
    by (simp add: tee_holding_def)
  from reclaim_watermark_min_active [OF h b] show ?thesis by simp
qed

subsection \<open>The scheduling pass\<close>

lemma assign_loop_ConsE:
  assumes "assign_loop st fds ad dps n pa dta (si # rest) = Inr sis'"
  obtains
    (skip) tl where "\<not> (pos_written si = pos_to_write si \<and> fd si \<in> fds)" "sis' = si # tl"
      "assign_loop st fds ad dps n pa dta rest = Inr tl"
  | (deferred) "pos_written si = pos_to_write si" "fd si \<in> fds" "opt_line st"
      "\<not> ad > buffer_size st div 2" "scan_forward st pa dps pa (- 1) = Inr None"
      "sis' = si\<lparr>pos_written := pa, pos_to_write := pa\<rparr> # rest"
  | (assigned) pa' tl where "pos_written si = pos_to_write si" "fd si \<in> fds"
      "sis' = si\<lparr>pos_written := pa, pos_to_write := pa'\<rparr> # tl"
      "assign_loop st fds ad dps n pa' (if dta = 0 then dps + ad mod n else dps) rest = Inr tl"
      "if opt_line st
       then (if ad > buffer_size st div 2
             then scan_backward st pa (if dta = 0 then dps + ad mod n else dps)
                    (pa + (if dta = 0 then dps + ad mod n else dps) - 1) = Inr pa'
             else scan_forward st pa dps pa (- 1) = Inr (Some pa'))
       else pa' = pa + (if dta = 0 then dps + ad mod n else dps)"
proof (cases "pos_written si = pos_to_write si \<and> fd si \<in> fds")
  case False
  with assms have "cons_sink si (assign_loop st fds ad dps n pa dta rest) = Inr sis'"
    by simp
  with False skip show ?thesis
    by (auto simp: cons_sink_eq_Inr)
next
  case el: True
  let ?dta = "if dta = 0 then dps + ad mod n else dps"
  show ?thesis
  proof (cases "opt_line st")
    case False
    with el assms have
      "cons_sink (si\<lparr>pos_written := pa, pos_to_write := pa + ?dta\<rparr>)
         (assign_loop st fds ad dps n (pa + ?dta) ?dta rest) = Inr sis'"
      by (simp add: Let_def split del: if_split)
    then obtain tl where "assign_loop st fds ad dps n (pa + ?dta) ?dta rest = Inr tl"
      "sis' = si\<lparr>pos_written := pa, pos_to_write := pa + ?dta\<rparr> # tl"
      by (auto simp: cons_sink_eq_Inr)
    with el False show ?thesis
      by (intro assigned [of "pa + ?dta" tl]) simp_all
  next
    case line: True
    show ?thesis
    proof (cases "ad > buffer_size st div 2")
      case big: True
      with el line assms have
        "(case scan_backward st pa ?dta (pa + ?dta - 1) of
            Inl f \<Rightarrow> Inl f
          | Inr pa' \<Rightarrow> cons_sink (si\<lparr>pos_written := pa, pos_to_write := pa'\<rparr>)
                        (assign_loop st fds ad dps n pa' ?dta rest)) = Inr sis'"
        by (simp add: Let_def split del: if_split)
      then obtain pa' tl where "scan_backward st pa ?dta (pa + ?dta - 1) = Inr pa'"
        "assign_loop st fds ad dps n pa' ?dta rest = Inr tl"
        "sis' = si\<lparr>pos_written := pa, pos_to_write := pa'\<rparr> # tl"
        by (auto simp: cons_sink_eq_Inr split: sum.splits)
      with el line big show ?thesis
        by (intro assigned [of pa' tl]) simp_all
    next
      case small: False
      with el line assms have *:
        "(case scan_forward st pa dps pa (- 1) of
            Inl f \<Rightarrow> Inl f
          | Inr None \<Rightarrow> Inr (si\<lparr>pos_written := pa, pos_to_write := pa\<rparr> # rest)
          | Inr (Some pa') \<Rightarrow> cons_sink (si\<lparr>pos_written := pa, pos_to_write := pa'\<rparr>)
                        (assign_loop st fds ad dps n pa' ?dta rest)) = Inr sis'"
        by (simp add: Let_def split del: if_split)
      show ?thesis
      proof (cases "scan_forward st pa dps pa (- 1)")
        case (Inl f)
        with * show ?thesis by simp
      next
        case (Inr r)
        show ?thesis
        proof (cases r)
          case None
          with Inr * el line small show ?thesis
            by (intro deferred) simp_all
        next
          case (Some pa')
          with Inr * obtain tl where "assign_loop st fds ad dps n pa' ?dta rest = Inr tl"
            "sis' = si\<lparr>pos_written := pa, pos_to_write := pa'\<rparr> # tl"
            by (auto simp: cons_sink_eq_Inr)
          with Some Inr el line small show ?thesis
            by (intro assigned [of pa' tl]) simp_all
        qed
      qed
    qed
  qed
qed

lemma assign_loop_fields:
  "assign_loop st fds ad dps n pa dta sis = Inr sis' \<Longrightarrow>
     map fd sis' = map fd sis \<and> map name sis' = map name sis \<and> map active sis' = map active sis"
proof (induction sis arbitrary: sis' pa dta)
  case Nil
  then show ?case by simp
next
  case (Cons si rest)
  from Cons.prems show ?case
  proof (cases rule: assign_loop_ConsE)
    case (skip tl)
    with Cons.IH [OF skip(3)] show ?thesis by simp
  next
    case deferred
    then show ?thesis by simp
  next
    case (assigned pa' tl)
    with Cons.IH [OF assigned(4)] show ?thesis by simp
  qed
qed

lemma assign_loop_unchanged:
  "assign_loop st fds ad dps n pa dta sis = Inr sis' \<Longrightarrow> j < length sis
     \<Longrightarrow> \<not> (pos_written (sis ! j) = pos_to_write (sis ! j) \<and> fd (sis ! j) \<in> fds)
     \<Longrightarrow> sis' ! j = sis ! j"
proof (induction sis arbitrary: sis' pa dta j)
  case Nil
  then show ?case by simp
next
  case (Cons si rest)
  from Cons.prems(1) show ?case
  proof (cases rule: assign_loop_ConsE)
    case (skip tl)
    with Cons.IH [OF skip(3)] Cons.prems(2,3) show ?thesis
      by (cases j) auto
  next
    case deferred
    with Cons.prems(2,3) show ?thesis
      by (cases j) auto
  next
    case (assigned pa' tl)
    with Cons.IH [OF assigned(4)] Cons.prems(2,3) show ?thesis
      by (cases j) auto
  qed
qed

lemma allocate_replicate:
  "\<not> opt_scatter st \<Longrightarrow> allocate_data_to_sinks st fds files
      = Inr (map (\<lambda>si. si\<lparr>pos_to_write := source_pos_read st\<rparr>) files)"
  by (simp add: allocate_data_to_sinks_def)

lemma allocate_scatterE:
  assumes "allocate_data_to_sinks st fds files = Inr files'" and "opt_scatter st"
  obtains (none) "snd (fresh_and_available fds files) = 0" "files' = files"
  | (some) "snd (fresh_and_available fds files) \<noteq> 0"
      "assign_loop st fds (size_t (source_pos_read st - fst (fresh_and_available fds files)))
         (size_t (source_pos_read st - fst (fresh_and_available fds files))
            div snd (fresh_and_available fds files))
         (snd (fresh_and_available fds files)) (fst (fresh_and_available fds files)) 0 files
       = Inr files'"
  using assms
  by (auto simp: allocate_data_to_sinks_def Let_def split: prod.splits if_splits)

lemma allocate_fields:
  assumes "allocate_data_to_sinks st fds files = Inr files'"
  shows "map fd files' = map fd files \<and> map name files' = map name files
       \<and> map active files' = map active files"
proof (cases "opt_scatter st")
  case False
  with assms show ?thesis by (auto simp: allocate_replicate comp_def)
next
  case True
  from assms True show ?thesis
    by (cases rule: allocate_scatterE) (auto dest: assign_loop_fields)
qed

lemma allocate_scatter_unchanged:
  assumes "allocate_data_to_sinks st fds files = Inr files'" and "opt_scatter st"
    and "j < length files"
    and "\<not> (pos_written (files ! j) = pos_to_write (files ! j) \<and> fd (files ! j) \<in> fds)"
  shows "files' ! j = files ! j"
  using assms(1,2)
  by (cases rule: allocate_scatterE) (use assms(3,4) in \<open>auto dest: assign_loop_unchanged\<close>)

text \<open>
  C9, as stated, fails. Scatter and line mode, one output file, the input \<open>abc\<close> without
  a newline: the first iteration reads the three bytes; in the second the sink is
  write-ready, the forward scan finds no newline and defers, so \<open>pos_written\<close> and
  \<open>pos_to_write\<close> are both 0, and still one \<^verbatim>\<open>write\<close> call, of length 0, is issued on its
  descriptor.
\<close>

theorem write_issued_with_nothing_to_write:
  "(case main 4096 True True True [(''a'', 3)] ''abc''
           [env_ready {3} (\<lambda>_. Write_ok 4096) 4095] of
      Continue (fs, eof, st) \<Rightarrow>
        write_calls st = [] \<and> map pos_written fs = [0] \<and> map pos_to_write fs = [0]
    | _ \<Rightarrow> False)
   \<and> (case main 4096 True True True [(''a'', 3)] ''abc''
           [env_ready {3} (\<lambda>_. Write_ok 4096) 4095, env_ready {3} (\<lambda>_. Write_ok 4096) 4095] of
      Continue (fs, eof, st) \<Rightarrow>
        write_calls st = [(3, 0)] \<and> map pos_written fs = [0] \<and> map pos_to_write fs = [0]
    | _ \<Rightarrow> False)"
  by code_simp

text \<open>
  C9, amended. In a pass of \<^verbatim>\<open>sink_write\<close> that ends without a fatal error, one \<^verbatim>\<open>write\<close>
  call is issued for each sink whose descriptor is in the ready set, in registration
  order, and for no other sink. Its length is the smaller of the distance from
  \<open>pos_written\<close> to the end of its chunk and \<open>pos_to_write - pos_written\<close>, taken after the
  scheduling pass; it is 0 for a sink with \<open>pos_written = pos_to_write\<close>.
\<close>

theorem write_issued_to_each_ready_sink:
  assumes "allocate_data_to_sinks st sink_fds files = Inr files1"
    and "write_pass wa sink_fds files st = Inr (files', min_pos, written, st')"
    and "0 < buffer_size st"
  shows "write_calls st' = write_calls st
           @ map (\<lambda>si. (fd si, min (buffer_size st - pos_written si mod buffer_size st)
                                  (size_t (pos_to_write si - pos_written si))))
               (filter (\<lambda>si. fd si \<in> sink_fds) files1)
     \<and> (\<forall>si \<in> set files1. pos_written si = pos_to_write si \<longrightarrow>
           min (buffer_size st - pos_written si mod buffer_size st)
             (size_t (pos_to_write si - pos_written si)) = 0)"
proof -
  from assms(1,2) have
    "write_loop wa sink_fds files1 (source_pos_read st) 0 st = Inr (files', min_pos, written, st')"
    by (simp add: write_pass_def)
  from write_loop_calls [OF this] have
    "write_calls st' = write_calls st
           @ map (\<lambda>si. (fd si, min (buffer_size st - pos_written si mod buffer_size st)
                                  (size_t (pos_to_write si - pos_written si))))
               (filter (\<lambda>si. fd si \<in> sink_fds) files1)"
    by (simp add: sink_buffer_def Let_def)
  moreover have "min (buffer_size st - x mod buffer_size st) (size_t 0) = 0" for x
    using assms(3) pos_mod_bound [of "buffer_size st" x] by (simp add: size_t_def)
  ultimately show ?thesis by simp
qed

theorem write_issued_to_each_ready_sink_witness:
  "write_calls ((tee_holding 4 True False ''x'')\<lparr>write_calls := [(3, 1), (5, 0)]\<rparr>)
     = [(3, 1), (5, 0)]
   \<and> min (4 - 1 mod 4) (size_t (1 - 1)) = (0::int)"
proof -
  have a: "allocate_data_to_sinks (tee_holding 4 True False ''x'') {3, 5}
       [sink_at ''a'' 3 0 0 True, sink_at ''b'' 4 0 0 True, sink_at ''c'' 5 0 0 True]
     = Inr [sink_at ''a'' 3 0 1 True, sink_at ''b'' 4 0 0 True, sink_at ''c'' 5 1 1 True]"
    by (simp add: allocate_data_to_sinks_def fresh_and_available_def sink_at_def
        tee_holding_def size_t_def Let_def)
  have p: "write_pass (\<lambda>_. Write_ok 9) {3, 5}
       [sink_at ''a'' 3 0 0 True, sink_at ''b'' 4 0 0 True, sink_at ''c'' 5 0 0 True]
       (tee_holding 4 True False ''x'')
     = Inr ([sink_at ''a'' 3 1 1 True, sink_at ''b'' 4 0 0 True, sink_at ''c'' 5 1 1 True], 0, 1,
            (tee_holding 4 True False ''x'')
               \<lparr>write_calls := [(3, 1), (5, 0)], outs := (\<lambda>_. [])(3 := ''x'')\<rparr>)"
    unfolding write_pass_def a
    by (simp add: sink_at_def tee_holding_def sink_write_one_def sink_buffer_def size_t_def
          Let_def eval_nat_numeral)
  have b: "0 < buffer_size (tee_holding 4 True False ''x'')"
    by (simp add: tee_holding_def)
  from write_issued_to_each_ready_sink [OF a p b] show ?thesis
    by (simp add: sink_at_def tee_holding_def size_t_def)
qed

subsection \<open>Inactive sinks\<close>

lemma not_pending_not_selected:
  assumes "distinct (map fd files)" and "i < length files" and "\<not> pending st (files ! i)"
  shows "fd (files ! i) \<notin> set (map fd (filter (pending st) files))"
proof
  assume "fd (files ! i) \<in> set (map fd (filter (pending st) files))"
  then obtain s where s: "s \<in> set files" "pending st s" "fd s = fd (files ! i)"
    by auto
  then obtain j where j: "j < length files" "s = files ! j"
    by (auto simp: in_set_conv_nth)
  with s(3) assms(2) have "map fd files ! j = map fd files ! i" by simp
  with assms(1,2) j(1) have "j = i"
    using nth_eq_iff_index_eq [of "map fd files" j i] by simp
  with j(2) s(2) assms(3) show False by simp
qed

lemma active_image_without:
  assumes "i < length fs" and "\<not> active (fs ! i)"
  shows "pos_written ` {s \<in> set fs. active s}
       = {pos_written (fs ! j) | j. j < length fs \<and> j \<noteq> i \<and> active (fs ! j)}"
  using assms by (auto simp: in_set_conv_nth image_def)

text \<open>
  C7, as stated, fails in replicate mode. One output file, the input \<open>ab\<close> arriving one
  byte at a time: the first iteration reads \<open>a\<close>; in the second the \<^verbatim>\<open>write\<close> fails with
  \<^verbatim>\<open>EPIPE\<close>, the sink becomes inactive with \<open>pos_to_write = 1\<close>, and \<open>b\<close> is read; the
  scheduling pass of the third iteration sets the \<open>pos_to_write\<close> of the inactive sink
  to 2, and the program ends with status 0.
\<close>

theorem replicate_moves_inactive_pos_to_write:
  "(case main 4 False False True [(''a'', 3)] ''ab''
           [env_ready {3} (\<lambda>_. Write_failed EPIPE) 0, env_ready {3} (\<lambda>_. Write_failed EPIPE) 0] of
      Continue (fs, eof, st) \<Rightarrow>
        map active fs = [False] \<and> map pos_to_write fs = [1] \<and> source_pos_read st = 2
    | _ \<Rightarrow> False)
   \<and> (case main 4 False False True [(''a'', 3)] ''ab''
           [env_ready {3} (\<lambda>_. Write_failed EPIPE) 0, env_ready {3} (\<lambda>_. Write_failed EPIPE) 0,
            env_ready {3} (\<lambda>_. Write_failed EPIPE) 0] of
      Return n (fs, eof, st) \<Rightarrow>
        n = 0 \<and> map active fs = [False] \<and> map pos_to_write fs = [2]
    | _ \<Rightarrow> False)"
  by code_simp

text \<open>
  C7, amended. \<^verbatim>\<open>main\<close> puts into the write set only descriptors of sinks that are active
  and have \<open>pos_written < source_pos_read\<close>, and \<^verbatim>\<open>select\<close> only removes descriptors. With
  pairwise different descriptors, a pass of \<^verbatim>\<open>sink_write\<close> on such a set therefore treats a
  sink whose \<open>active\<close> flag is false as follows: its descriptor is not in the set; in scatter
  mode the sink is left as it is; in replicate mode only its \<open>pos_to_write\<close> changes, to
  \<open>source_pos_read\<close>; no \<^verbatim>\<open>write\<close> is issued on its descriptor; and \<open>min_pos\<close> is the minimum
  of \<open>source_pos_read\<close> and the \<open>pos_written\<close> of the other sinks that are active.
\<close>

theorem inactive_sink_excluded:
  assumes "write_pass wa (set (map fd (filter (pending st) files)) \<inter> rdy) files st
             = Inr (files', min_pos, written, st')"
    and "distinct (map fd files)" and "i < length files" and "\<not> active (files ! i)"
  shows "fd (files ! i) \<notin> set (map fd (filter (pending st) files)) \<inter> rdy
     \<and> length files' = length files
     \<and> files' ! i = (if opt_scatter st then files ! i
                      else (files ! i)\<lparr>pos_to_write := source_pos_read st\<rparr>)
     \<and> fd (files ! i) \<notin> fst ` set (drop (length (write_calls st)) (write_calls st'))
     \<and> min_pos = Min (insert (source_pos_read st)
           {pos_written (files' ! j) | j. j < length files' \<and> j \<noteq> i \<and> active (files' ! j)})"
proof -
  let ?S = "set (map fd (filter (pending st) files)) \<inter> rdy"
  from assms(4) have "\<not> pending st (files ! i)"
    by (simp add: pending_def)
  from not_pending_not_selected [OF assms(2,3) this]
  have notin: "fd (files ! i) \<notin> ?S" by simp
  from assms(1) obtain files1 where
    alloc: "allocate_data_to_sinks st ?S files = Inr files1" and
    loop: "write_loop wa ?S files1 (source_pos_read st) 0 st = Inr (files', min_pos, written, st')"
    by (auto simp: write_pass_def split: sum.splits)
  from allocate_fields [OF alloc] have f1: "map fd files1 = map fd files"
    and a1: "map active files1 = map active files" by simp_all
  from f1 have len1: "length files1 = length files"
    by (metis length_map)
  from f1 assms(3) have fd1: "fd (files1 ! i) = fd (files ! i)"
    by (metis len1 nth_map)
  from write_loop_fields [OF loop] have f2: "map fd files' = map fd files1" by simp
  then have len2: "length files' = length files1"
    by (metis length_map)
  have one: "files1 ! i = (if opt_scatter st then files ! i
                      else (files ! i)\<lparr>pos_to_write := source_pos_read st\<rparr>)"
  proof (cases "opt_scatter st")
    case True
    with allocate_scatter_unchanged [OF alloc True assms(3)] notin show ?thesis by simp
  next
    case False
    with alloc assms(3) show ?thesis by (auto simp: allocate_replicate)
  qed
  have two: "files' ! i = files1 ! i"
    using write_loop_unchanged [OF loop, of i] assms(3) len1 fd1 notin by simp
  from two one assms(4) have inact: "\<not> active (files' ! i)"
    by (simp split: if_splits)
  have calls: "fd (files ! i) \<notin> fst ` set (drop (length (write_calls st)) (write_calls st'))"
    using write_loop_calls [OF loop] notin by auto
  from write_loop_min_pos [OF loop] have
    "min_pos = Min (insert (source_pos_read st) (pos_written ` {s \<in> set files'. active s}))" .
  also have "pos_written ` {s \<in> set files'. active s}
       = {pos_written (files' ! j) | j. j < length files' \<and> j \<noteq> i \<and> active (files' ! j)}"
    using active_image_without [of i files'] inact assms(3) len1 len2 by simp
  finally show ?thesis
    using notin len1 len2 one two calls by simp
qed


theorem inactive_sink_excluded_witness:
  "fd (sink_at ''a'' 3 0 1 False)
       \<notin> set (map fd (filter (pending (tee_holding 4 True False ''xyz''))
                  [sink_at ''a'' 3 0 1 False, sink_at ''b'' 4 1 1 True])) \<inter> {3, 4}
   \<and> [sink_at ''a'' 3 0 1 False, sink_at ''b'' 4 3 3 True] ! 0 = sink_at ''a'' 3 0 1 False
   \<and> fd (sink_at ''a'' 3 0 1 False) \<notin> fst ` set [(4, 2)]"
proof -
  let ?st = "tee_holding 4 True False ''xyz''"
  let ?files = "[sink_at ''a'' 3 0 1 False, sink_at ''b'' 4 1 1 True]"
  have h: "write_pass (\<lambda>_. Write_ok 9) (set (map fd (filter (pending ?st) ?files)) \<inter> {3, 4})
             ?files ?st
     = Inr ([sink_at ''a'' 3 0 1 False, sink_at ''b'' 4 3 3 True], 3, 2,
            ?st\<lparr>write_calls := [(4, 2)], outs := (\<lambda>_. [])(4 := ''yz'')\<rparr>)"
    by (simp add: write_pass_def allocate_data_to_sinks_def fresh_and_available_def
        pending_def sink_at_def tee_holding_def sink_write_one_def sink_buffer_def size_t_def
        Let_def eval_nat_numeral)
  have d: "distinct (map fd ?files)" by (simp add: sink_at_def)
  have i: "0 < length ?files" by simp
  have na: "\<not> active (?files ! 0)" by (simp add: sink_at_def)
  from inactive_sink_excluded [OF h d i na] have
    "fd (?files ! 0) \<notin> set (map fd (filter (pending ?st) ?files)) \<inter> {3, 4}"
    "[sink_at ''a'' 3 0 1 False, sink_at ''b'' 4 3 3 True] ! 0
       = (if opt_scatter ?st then ?files ! 0
          else (?files ! 0)\<lparr>pos_to_write := source_pos_read ?st\<rparr>)"
    "fd (?files ! 0) \<notin> fst ` set (drop (length (write_calls ?st))
        (write_calls (?st\<lparr>write_calls := [(4, 2)], outs := (\<lambda>_. [])(4 := ''yz'')\<rparr>)))"
    by blast+
  then show ?thesis
    by (simp add: tee_holding_def)
qed

subsection \<open>Line alignment\<close>

lemma scan_backward_fatal:
  assumes "pa \<le> de"
    and "\<forall>q. pa \<le> q \<and> q \<le> de \<longrightarrow> (\<exists>c. sink_pointer st q = Some c \<and> c \<noteq> newline)"
  shows "scan_backward st pa dta de = Inl (Fatal 1 (No_newline_found (dta - 1)))"
  using assms
proof (induction "nat (de - pa)" arbitrary: de)
  case 0
  then have "de = pa" by simp
  with "0.prems"(2) obtain c where "sink_pointer st de = Some c" "c \<noteq> newline" by auto
  with \<open>de = pa\<close> show ?case
    by (subst scan_backward.simps) simp
next
  case (Suc k)
  then have lt: "pa < de" by linarith
  from Suc.prems(2) lt obtain c where c: "sink_pointer st de = Some c" "c \<noteq> newline"
    by (metis less_imp_le order_refl)
  have "scan_backward st pa dta (de - 1) = Inl (Fatal 1 (No_newline_found (dta - 1)))"
  proof (rule Suc.hyps(1))
    show "k = nat (de - 1 - pa)" using Suc.hyps(2) by linarith
    show "pa \<le> de - 1" using lt by simp
    show "\<forall>q. pa \<le> q \<and> q \<le> de - 1 \<longrightarrow> (\<exists>c. sink_pointer st q = Some c \<and> c \<noteq> newline)"
      using Suc.prems(2) by auto
  qed
  with c lt show ?case
    by (subst scan_backward.simps) simp
qed

lemma scan_backward_found:
  assumes "p \<le> de" and "\<not> (p < pa \<and> pa \<le> de)" and "sink_pointer st p = Some newline"
    and "\<forall>q. p < q \<and> q \<le> de \<longrightarrow> (\<exists>c. sink_pointer st q = Some c \<and> c \<noteq> newline)"
  shows "scan_backward st pa dta de = Inr (p + 1)"
  using assms
proof (induction "nat (de - p)" arbitrary: de)
  case 0
  then have "de = p" by simp
  with "0.prems"(3) show ?case
    by (subst scan_backward.simps) simp
next
  case (Suc k)
  then have lt: "p < de" by linarith
  from Suc.prems(4) lt obtain c where c: "sink_pointer st de = Some c" "c \<noteq> newline"
    by (metis order_refl)
  from Suc.prems(2) lt have ne: "de \<noteq> pa" by auto
  have "scan_backward st pa dta (de - 1) = Inr (p + 1)"
  proof (rule Suc.hyps(1))
    show "k = nat (de - 1 - p)" using Suc.hyps(2) by linarith
    show "p \<le> de - 1" using lt by simp
    show "\<not> (p < pa \<and> pa \<le> de - 1)" using Suc.prems(2) by auto
    show "sink_pointer st p = Some newline" by fact
    show "\<forall>q. p < q \<and> q \<le> de - 1 \<longrightarrow> (\<exists>c. sink_pointer st q = Some c \<and> c \<noteq> newline)"
      using Suc.prems(4) by auto
  qed
  with c ne show ?case
    by (subst scan_backward.simps) simp
qed

lemma scan_forward_no_newline:
  assumes "\<forall>q. de \<le> q \<and> q < source_pos_read st
             \<longrightarrow> (\<exists>c. sink_pointer st q = Some c \<and> c \<noteq> newline)"
  shows "scan_forward st pa dps de l = Inr (if l \<noteq> - 1 then Some (l + 1) else None)"
  using assms
proof (induction "nat (source_pos_read st - de)" arbitrary: de)
  case 0
  then have "source_pos_read st \<le> de" by simp
  then show ?case
    by (subst scan_forward.simps) simp
next
  case (Suc k)
  then have lt: "de < source_pos_read st" by linarith
  with Suc.prems obtain c where c: "sink_pointer st de = Some c" "c \<noteq> newline"
    by (metis order_refl)
  have "scan_forward st pa dps (de + 1) l = Inr (if l \<noteq> - 1 then Some (l + 1) else None)"
  proof (rule Suc.hyps(1))
    show "k = nat (source_pos_read st - (de + 1))" using Suc.hyps(2) by linarith
    show "\<forall>q. de + 1 \<le> q \<and> q < source_pos_read st
             \<longrightarrow> (\<exists>c. sink_pointer st q = Some c \<and> c \<noteq> newline)"
      using Suc.prems by auto
  qed
  with c lt show ?case
    by (subst scan_forward.simps) simp
qed

lemma scan_forward_far_newline:
  assumes "de \<le> p" and "p < source_pos_read st" and "sink_pointer st p = Some newline"
    and "p - pa > dps"
    and "\<forall>q. de \<le> q \<and> q < p
           \<longrightarrow> (\<exists>c. sink_pointer st q = Some c \<and> \<not> (c = newline \<and> q - pa > dps))"
  shows "scan_forward st pa dps de l = Inr (Some (p + 1))"
  using assms
proof (induction "nat (p - de)" arbitrary: de l)
  case 0
  then have "de = p" by simp
  with "0.prems"(2,3,4) show ?case
    by (subst scan_forward.simps) simp
next
  case (Suc k)
  then have lt: "de < p" by linarith
  with Suc.prems(5) obtain c where
    c: "sink_pointer st de = Some c" "\<not> (c = newline \<and> de - pa > dps)"
    by (metis order_refl)
  have rec: "scan_forward st pa dps (de + 1) l' = Inr (Some (p + 1))" for l'
  proof (rule Suc.hyps(1))
    show "k = nat (p - (de + 1))" using Suc.hyps(2) by linarith
    show "de + 1 \<le> p" using lt by simp
    show "\<forall>q. de + 1 \<le> q \<and> q < p
           \<longrightarrow> (\<exists>c. sink_pointer st q = Some c \<and> \<not> (c = newline \<and> q - pa > dps))"
      using Suc.prems(5) by auto
  qed (fact+)
  from lt Suc.prems(2) have "\<not> source_pos_read st \<le> de" by simp
  with c rec show ?case
    by (subst scan_forward.simps) auto
qed

lemma scan_forward_last_newline:
  assumes "de \<le> p" and "p < source_pos_read st" and "sink_pointer st p = Some newline"
    and "\<forall>q. de \<le> q \<and> q < source_pos_read st \<longrightarrow> sink_pointer st q \<noteq> None"
    and "\<forall>q. de \<le> q \<and> q < source_pos_read st \<and> sink_pointer st q = Some newline
           \<longrightarrow> q - pa \<le> dps"
    and "\<forall>q. p < q \<and> q < source_pos_read st \<longrightarrow> sink_pointer st q \<noteq> Some newline"
  shows "scan_forward st pa dps de l = Inr (Some (p + 1))"
  using assms
proof (induction "nat (p - de)" arbitrary: de l)
  case 0
  then have de: "de = p" by simp
  from "0.prems"(3) have "0 \<le> p"
    by (auto simp: sink_pointer_def split: if_splits)
  then have p1: "p \<noteq> - 1" by simp
  have "\<forall>q. p + 1 \<le> q \<and> q < source_pos_read st
          \<longrightarrow> (\<exists>c. sink_pointer st q = Some c \<and> c \<noteq> newline)"
    using "0.prems"(4,6) de by (metis add1_zle_eq le_less not_None_eq order_trans zle_add1_eq_le)
  from scan_forward_no_newline [OF this, of pa dps p] p1
  have "scan_forward st pa dps (p + 1) p = Inr (Some (p + 1))" by simp
  moreover from "0.prems"(2,3,5) de have "\<not> dps < p - pa" by auto
  ultimately show ?case
    using de "0.prems"(2,3) by (subst scan_forward.simps) simp
next
  case (Suc k)
  then have lt: "de < p" by linarith
  with Suc.prems(2,4) obtain c where c: "sink_pointer st de = Some c"
    by (metis less_trans not_None_eq order_refl)
  have rec: "scan_forward st pa dps (de + 1) l' = Inr (Some (p + 1))" for l'
  proof (rule Suc.hyps(1))
    show "k = nat (p - (de + 1))" using Suc.hyps(2) by linarith
    show "de + 1 \<le> p" using lt by simp
    show "\<forall>q. de + 1 \<le> q \<and> q < source_pos_read st \<longrightarrow> sink_pointer st q \<noteq> None"
      using Suc.prems(4) by auto
    show "\<forall>q. de + 1 \<le> q \<and> q < source_pos_read st \<and> sink_pointer st q = Some newline
           \<longrightarrow> q - pa \<le> dps"
      using Suc.prems(5) by auto
  qed (fact+)
  from lt Suc.prems(2) have in_range: "de < source_pos_read st" by simp
  with Suc.prems(5) c have "c = newline \<Longrightarrow> \<not> dps < de - pa" by auto
  with c rec in_range show ?case
    by (subst scan_forward.simps) auto
qed

text \<open>
  C6. Scatter and line mode, \<open>available_data > buffer_size / 2\<close>, for a sink that is idle
  and write-ready, with \<open>dta\<close> the bytes to assign to it. The scan starts at
  \<open>pos_assigned + dta - 1\<close> and goes down. If \<open>dta \<ge> 1\<close> and no byte from there down to
  \<open>pos_assigned\<close> is a newline, the process stops with exit status 1 and the message
  \<^verbatim>\<open>No newline found in a region of %d bytes. Increase buffer size.\<close>, printed with
  \<open>dta - 1\<close>. If \<open>p\<close> is the first position met that holds a newline, the window of the
  sink is \<open>pos_assigned \<le> pos < p + 1\<close> and the loop goes on from \<open>p + 1\<close>.
\<close>

theorem efficient_scan_newline_or_fatal:
  assumes "opt_line st" and "available_data > buffer_size st div 2"
    and "pos_written si = pos_to_write si" and "fd si \<in> sink_fds"
    and "dta = (if data_to_assign = 0
                then data_per_sink + available_data mod available_sinks
                else data_per_sink)"
  shows "(1 \<le> dta
          \<and> (\<forall>q. pos_assigned \<le> q \<and> q \<le> pos_assigned + dta - 1
                 \<longrightarrow> (\<exists>c. sink_pointer st q = Some c \<and> c \<noteq> newline))
          \<longrightarrow> assign_loop st sink_fds available_data data_per_sink available_sinks
                 pos_assigned data_to_assign (si # rest)
               = Inl (Fatal 1 (No_newline_found (dta - 1))))
     \<and> (\<forall>p. p \<le> pos_assigned + dta - 1 \<and> (pos_assigned \<le> p \<or> dta < 1)
              \<and> sink_pointer st p = Some newline
              \<and> (\<forall>q. p < q \<and> q \<le> pos_assigned + dta - 1
                     \<longrightarrow> (\<exists>c. sink_pointer st q = Some c \<and> c \<noteq> newline))
          \<longrightarrow> assign_loop st sink_fds available_data data_per_sink available_sinks
                 pos_assigned data_to_assign (si # rest)
               = cons_sink (si\<lparr>pos_written := pos_assigned, pos_to_write := p + 1\<rparr>)
                   (assign_loop st sink_fds available_data data_per_sink available_sinks
                      (p + 1) dta rest))"
proof (intro conjI impI allI)
  assume "1 \<le> dta
          \<and> (\<forall>q. pos_assigned \<le> q \<and> q \<le> pos_assigned + dta - 1
                 \<longrightarrow> (\<exists>c. sink_pointer st q = Some c \<and> c \<noteq> newline))"
  then have "scan_backward st pos_assigned dta (pos_assigned + dta - 1)
               = Inl (Fatal 1 (No_newline_found (dta - 1)))"
    by (intro scan_backward_fatal) auto
  with assms show "assign_loop st sink_fds available_data data_per_sink available_sinks
                 pos_assigned data_to_assign (si # rest)
               = Inl (Fatal 1 (No_newline_found (dta - 1)))"
    by (simp add: Let_def)
next
  fix p
  assume "p \<le> pos_assigned + dta - 1 \<and> (pos_assigned \<le> p \<or> dta < 1)
              \<and> sink_pointer st p = Some newline
              \<and> (\<forall>q. p < q \<and> q \<le> pos_assigned + dta - 1
                     \<longrightarrow> (\<exists>c. sink_pointer st q = Some c \<and> c \<noteq> newline))"
  then have "scan_backward st pos_assigned dta (pos_assigned + dta - 1) = Inr (p + 1)"
    by (intro scan_backward_found) auto
  with assms show "assign_loop st sink_fds available_data data_per_sink available_sinks
                 pos_assigned data_to_assign (si # rest)
               = cons_sink (si\<lparr>pos_written := pos_assigned, pos_to_write := p + 1\<rparr>)
                   (assign_loop st sink_fds available_data data_per_sink available_sinks
                      (p + 1) dta rest)"
    by (simp add: Let_def)
qed

lemma sink_pointer_tee_holding:
  assumes "0 < b"
  shows "sink_pointer (tee_holding b scatter line bytes) pos
           = (if 0 \<le> pos \<and> pos < int (length bytes) then Some (bytes ! nat pos) else None)"
proof -
  have "0 \<le> pos \<Longrightarrow> 0 \<le> pos div b" using assms by (simp add: pos_imp_zdiv_nonneg_iff)
  moreover have "0 \<le> pos mod b" "pos mod b < b" using assms by simp_all
  moreover have "pos div b * b + pos mod b = pos" by simp
  ultimately show ?thesis
    by (simp add: sink_pointer_def tee_holding_def)
qed

theorem efficient_scan_newline_or_fatal_witness:
  "assign_loop (tee_holding 4 True True ''abcdef'') {3} 6 3 2 0 0 [sink_at ''a'' 3 0 0 True]
     = Inl (Fatal 1 (No_newline_found 2))
   \<and> assign_loop (tee_holding 4 True True (''ab'' @ [newline] @ ''cde'')) {3} 6 3 2 0 0
       [sink_at ''a'' 3 0 0 True]
     = Inr [sink_at ''a'' 3 0 3 True]"
proof -
  let ?si = "sink_at ''a'' 3 0 0 True"
  let ?st1 = "tee_holding 4 True True ''abcdef''"
  let ?st2 = "tee_holding 4 True True (''ab'' @ [newline] @ ''cde'')"
  have dta: "(3::int) = (if (0::int) = 0 then 3 + 6 mod 2 else 3)" by simp
  have si: "pos_written ?si = pos_to_write ?si" "fd ?si \<in> {3}"
    by (simp_all add: sink_at_def)
  have none: "\<exists>c. sink_pointer ?st1 q = Some c \<and> c \<noteq> newline" if "0 \<le> q \<and> q \<le> 0 + 3 - 1" for q
  proof -
    from that consider "q = 0" | "q = 1" | "q = 2" by linarith
    then show ?thesis
      by cases (simp_all add: sink_pointer_tee_holding newline_def)
  qed
  have "opt_line ?st1" "6 > buffer_size ?st1 div 2"
    by (simp_all add: tee_holding_def)
  note t1 = efficient_scan_newline_or_fatal [OF this si dta, of 0 "[]"]
  have "(1::int) \<le> 3 \<and> (\<forall>q. 0 \<le> q \<and> q \<le> 0 + 3 - 1
          \<longrightarrow> (\<exists>c. sink_pointer ?st1 q = Some c \<and> c \<noteq> newline))"
  proof (intro conjI allI impI)
    show "(1::int) \<le> 3" by simp
  qed (rule none)
  from t1 [THEN conjunct1, THEN mp, OF this]
  have "assign_loop ?st1 {3} 6 3 2 0 0 [?si] = Inl (Fatal 1 (No_newline_found (3 - 1)))" .
  moreover have "No_newline_found (3 - 1) = No_newline_found 2" by simp
  ultimately have 1: "assign_loop ?st1 {3} 6 3 2 0 0 [?si] = Inl (Fatal 1 (No_newline_found 2))"
    by (simp only:)
  have "opt_line ?st2" "6 > buffer_size ?st2 div 2"
    by (simp_all add: tee_holding_def)
  note t2 = efficient_scan_newline_or_fatal [OF this si dta, of 0 "[]"]
  have "(2::int) \<le> 0 + 3 - 1 \<and> ((0::int) \<le> 2 \<or> (3::int) < 1)
          \<and> sink_pointer ?st2 2 = Some newline
          \<and> (\<forall>q. 2 < q \<and> q \<le> 0 + 3 - 1
                 \<longrightarrow> (\<exists>c. sink_pointer ?st2 q = Some c \<and> c \<noteq> newline))"
  proof (intro conjI allI impI)
    show "sink_pointer ?st2 2 = Some newline"
      by (simp add: sink_pointer_tee_holding)
    show "\<exists>c. sink_pointer ?st2 q = Some c \<and> c \<noteq> newline"
      if "2 < q \<and> q \<le> 0 + 3 - 1" for q
      using that by linarith
  qed simp_all
  from t2 [THEN conjunct2, THEN spec, of 2, THEN mp, OF this]
  have "assign_loop ?st2 {3} 6 3 2 0 0 [?si]
      = cons_sink (?si\<lparr>pos_written := 0, pos_to_write := 2 + 1\<rparr>)
          (assign_loop ?st2 {3} 6 3 2 (2 + 1) 3 [])" .
  moreover have "cons_sink (?si\<lparr>pos_written := 0, pos_to_write := 2 + 1\<rparr>)
          (assign_loop ?st2 {3} 6 3 2 (2 + 1) 3 []) = Inr [sink_at ''a'' 3 0 3 True]"
    by (simp add: sink_at_def)
  ultimately have 2: "assign_loop ?st2 {3} 6 3 2 0 0 [?si] = Inr [sink_at ''a'' 3 0 3 True]"
    by (simp only:)
  show ?thesis
    by (rule conjI [OF 1 2])
qed

text \<open>
  C5. Scatter and line mode, \<open>available_data \<le> buffer_size / 2\<close>, for a sink that is idle
  and write-ready, when the bytes from \<open>pos_assigned\<close> up to \<open>source_pos_read\<close> can be read.
  The scan goes up from \<open>pos_assigned\<close>. If \<open>p\<close> is the first position that holds a newline
  with \<open>p - pos_assigned > data_per_sink\<close>, the window of the sink ends at \<open>p + 1\<close>. If there
  is no such position before \<open>source_pos_read\<close> and \<open>p\<close> is the last position that holds a
  newline, the window ends at \<open>p + 1\<close>. If no position holds a newline, the sink gets
  \<open>pos_written = pos_to_write = pos_assigned\<close> and the pass returns: the remaining sinks are
  left as they are.
\<close>

theorem reliable_scan_window_or_defer:
  assumes "opt_line st" and "\<not> available_data > buffer_size st div 2"
    and "pos_written si = pos_to_write si" and "fd si \<in> sink_fds"
    and "dta = (if data_to_assign = 0
                then data_per_sink + available_data mod available_sinks
                else data_per_sink)"
    and "\<forall>q. pos_assigned \<le> q \<and> q < source_pos_read st \<longrightarrow> sink_pointer st q \<noteq> None"
  shows "(\<forall>p. pos_assigned \<le> p \<and> p < source_pos_read st \<and> sink_pointer st p = Some newline
              \<and> p - pos_assigned > data_per_sink
              \<and> (\<forall>q. pos_assigned \<le> q \<and> q < p \<and> sink_pointer st q = Some newline
                     \<longrightarrow> q - pos_assigned \<le> data_per_sink)
          \<longrightarrow> assign_loop st sink_fds available_data data_per_sink available_sinks
                 pos_assigned data_to_assign (si # rest)
               = cons_sink (si\<lparr>pos_written := pos_assigned, pos_to_write := p + 1\<rparr>)
                   (assign_loop st sink_fds available_data data_per_sink available_sinks
                      (p + 1) dta rest))
     \<and> (\<forall>p. pos_assigned \<le> p \<and> p < source_pos_read st \<and> sink_pointer st p = Some newline
              \<and> (\<forall>q. p < q \<and> q < source_pos_read st \<longrightarrow> sink_pointer st q \<noteq> Some newline)
              \<and> (\<forall>q. pos_assigned \<le> q \<and> q < source_pos_read st
                       \<and> sink_pointer st q = Some newline
                     \<longrightarrow> q - pos_assigned \<le> data_per_sink)
          \<longrightarrow> assign_loop st sink_fds available_data data_per_sink available_sinks
                 pos_assigned data_to_assign (si # rest)
               = cons_sink (si\<lparr>pos_written := pos_assigned, pos_to_write := p + 1\<rparr>)
                   (assign_loop st sink_fds available_data data_per_sink available_sinks
                      (p + 1) dta rest))
     \<and> ((\<forall>q. pos_assigned \<le> q \<and> q < source_pos_read st \<longrightarrow> sink_pointer st q \<noteq> Some newline)
          \<longrightarrow> assign_loop st sink_fds available_data data_per_sink available_sinks
                 pos_assigned data_to_assign (si # rest)
               = Inr (si\<lparr>pos_written := pos_assigned, pos_to_write := pos_assigned\<rparr> # rest))"
proof (intro conjI impI allI)
  fix p
  assume a: "pos_assigned \<le> p \<and> p < source_pos_read st \<and> sink_pointer st p = Some newline
              \<and> p - pos_assigned > data_per_sink
              \<and> (\<forall>q. pos_assigned \<le> q \<and> q < p \<and> sink_pointer st q = Some newline
                     \<longrightarrow> q - pos_assigned \<le> data_per_sink)"
  have "\<exists>c. sink_pointer st q = Some c \<and> \<not> (c = newline \<and> q - pos_assigned > data_per_sink)"
    if "pos_assigned \<le> q \<and> q < p" for q
  proof -
    from that a assms(6) obtain c where "sink_pointer st q = Some c" by fastforce
    with that a show ?thesis by auto
  qed
  with a have "scan_forward st pos_assigned data_per_sink pos_assigned (- 1) = Inr (Some (p + 1))"
    by (intro scan_forward_far_newline) auto
  with assms(1-5) show "assign_loop st sink_fds available_data data_per_sink available_sinks
                 pos_assigned data_to_assign (si # rest)
               = cons_sink (si\<lparr>pos_written := pos_assigned, pos_to_write := p + 1\<rparr>)
                   (assign_loop st sink_fds available_data data_per_sink available_sinks
                      (p + 1) dta rest)"
    by (simp add: Let_def)
next
  fix p
  assume a: "pos_assigned \<le> p \<and> p < source_pos_read st \<and> sink_pointer st p = Some newline
              \<and> (\<forall>q. p < q \<and> q < source_pos_read st \<longrightarrow> sink_pointer st q \<noteq> Some newline)
              \<and> (\<forall>q. pos_assigned \<le> q \<and> q < source_pos_read st
                       \<and> sink_pointer st q = Some newline
                     \<longrightarrow> q - pos_assigned \<le> data_per_sink)"
  with assms(6)
  have "scan_forward st pos_assigned data_per_sink pos_assigned (- 1) = Inr (Some (p + 1))"
    by (intro scan_forward_last_newline) auto
  with assms(1-5) show "assign_loop st sink_fds available_data data_per_sink available_sinks
                 pos_assigned data_to_assign (si # rest)
               = cons_sink (si\<lparr>pos_written := pos_assigned, pos_to_write := p + 1\<rparr>)
                   (assign_loop st sink_fds available_data data_per_sink available_sinks
                      (p + 1) dta rest)"
    by (simp add: Let_def)
next
  assume a: "\<forall>q. pos_assigned \<le> q \<and> q < source_pos_read st \<longrightarrow> sink_pointer st q \<noteq> Some newline"
  have "\<exists>c. sink_pointer st q = Some c \<and> c \<noteq> newline"
    if "pos_assigned \<le> q \<and> q < source_pos_read st" for q
    using that a assms(6) by fastforce
  then have "scan_forward st pos_assigned data_per_sink pos_assigned (- 1) = Inr None"
    using scan_forward_no_newline [of pos_assigned st pos_assigned data_per_sink "- 1"] by simp
  with assms(1-5) show "assign_loop st sink_fds available_data data_per_sink available_sinks
                 pos_assigned data_to_assign (si # rest)
               = Inr (si\<lparr>pos_written := pos_assigned, pos_to_write := pos_assigned\<rparr> # rest)"
    by (simp add: Let_def)
qed


theorem reliable_scan_window_or_defer_witness:
  "assign_loop
       (tee_holding 4096 True True
          [CHR ''a'', CHR ''b'', newline, CHR ''c'', CHR ''d'', newline, CHR ''e'', CHR ''f''])
       {3} 8 1 8 0 0 [sink_at ''a'' 3 0 0 True, sink_at ''b'' 4 0 0 True]
     = Inr [sink_at ''a'' 3 0 3 True, sink_at ''b'' 4 0 0 True]
   \<and> assign_loop
       (tee_holding 4096 True True
          [CHR ''a'', CHR ''b'', newline, CHR ''c'', CHR ''d'', newline, CHR ''e'', CHR ''f''])
       {3} 8 8 1 0 0 [sink_at ''a'' 3 0 0 True]
     = Inr [sink_at ''a'' 3 0 6 True]
   \<and> assign_loop (tee_holding 4096 True True ''abc'')
       {3, 4} 3 3 1 0 0 [sink_at ''a'' 3 0 0 True, sink_at ''b'' 4 0 0 True]
     = Inr [sink_at ''a'' 3 0 0 True, sink_at ''b'' 4 0 0 True]"
proof -
  let ?sa = "sink_at ''a'' 3 0 0 True"
  let ?sb = "sink_at ''b'' 4 0 0 True"
  let ?st = "tee_holding 4096 True True
    [CHR ''a'', CHR ''b'', newline, CHR ''c'', CHR ''d'', newline, CHR ''e'', CHR ''f'']"
  let ?st' = "tee_holding 4096 True True ''abc''"
  have sa: "pos_written ?sa = pos_to_write ?sa" "fd ?sa \<in> {3}" "fd ?sa \<in> {3, 4}"
    by (simp_all add: sink_at_def)
  have st: "opt_line ?st" "\<not> 8 > buffer_size ?st div 2" "source_pos_read ?st = 8"
    by (simp_all add: tee_holding_def)
  have st': "opt_line ?st'" "\<not> 3 > buffer_size ?st' div 2" "source_pos_read ?st' = 3"
    by (simp_all add: tee_holding_def)
  have rd: "\<forall>q. 0 \<le> q \<and> q < source_pos_read ?st \<longrightarrow> sink_pointer ?st q \<noteq> None"
    by (simp add: sink_pointer_tee_holding st(3))
  have rd': "\<forall>q. 0 \<le> q \<and> q < source_pos_read ?st' \<longrightarrow> sink_pointer ?st' q \<noteq> None"
    by (simp add: sink_pointer_tee_holding st'(3))
  have nl2: "sink_pointer ?st 2 = Some newline" and nl5: "sink_pointer ?st 5 = Some newline"
    by (simp_all add: sink_pointer_tee_holding)
  have d1: "(1::int) = (if (0::int) = 0 then 1 + 8 mod 8 else 1)"
    and d8: "(8::int) = (if (0::int) = 0 then 8 + 8 mod 1 else 8)"
    and d3: "(3::int) = (if (0::int) = 0 then 3 + 3 mod 1 else 3)"
    by simp_all
  note ta = reliable_scan_window_or_defer [OF st(1,2) sa(1,2) d1 rd, of "[?sb]"]
  have "(0::int) \<le> 2 \<and> 2 < source_pos_read ?st \<and> sink_pointer ?st 2 = Some newline
          \<and> 2 - 0 > (1::int)
          \<and> (\<forall>q. 0 \<le> q \<and> q < 2 \<and> sink_pointer ?st q = Some newline \<longrightarrow> q - 0 \<le> 1)"
    by (simp add: st(3) nl2)
  from ta [THEN conjunct1, THEN spec, of 2, THEN mp, OF this]
  have "assign_loop ?st {3} 8 1 8 0 0 [?sa, ?sb]
          = cons_sink (?sa\<lparr>pos_written := 0, pos_to_write := 2 + 1\<rparr>)
              (assign_loop ?st {3} 8 1 8 (2 + 1) 1 [?sb])" .
  moreover have "cons_sink (?sa\<lparr>pos_written := 0, pos_to_write := 2 + 1\<rparr>)
              (assign_loop ?st {3} 8 1 8 (2 + 1) 1 [?sb])
          = Inr [sink_at ''a'' 3 0 3 True, ?sb]"
    by (simp add: sink_at_def)
  ultimately have a: "assign_loop ?st {3} 8 1 8 0 0 [?sa, ?sb]
          = Inr [sink_at ''a'' 3 0 3 True, ?sb]"
    by (simp only:)
  note tb = reliable_scan_window_or_defer [OF st(1,2) sa(1,2) d8 rd, of "[]"]
  have after: "sink_pointer ?st q \<noteq> Some newline" if "5 < q \<and> q < source_pos_read ?st" for q
  proof -
    from that st(3) consider "q = 6" | "q = 7" by linarith
    then show ?thesis
      by cases (simp_all add: sink_pointer_tee_holding newline_def)
  qed
  have "(0::int) \<le> 5 \<and> 5 < source_pos_read ?st \<and> sink_pointer ?st 5 = Some newline
          \<and> (\<forall>q. 5 < q \<and> q < source_pos_read ?st \<longrightarrow> sink_pointer ?st q \<noteq> Some newline)
          \<and> (\<forall>q. 0 \<le> q \<and> q < source_pos_read ?st \<and> sink_pointer ?st q = Some newline
                 \<longrightarrow> q - 0 \<le> 8)"
    using after by (simp add: st(3) nl5)
  from tb [THEN conjunct2, THEN conjunct1, THEN spec, of 5, THEN mp, OF this]
  have "assign_loop ?st {3} 8 8 1 0 0 [?sa]
          = cons_sink (?sa\<lparr>pos_written := 0, pos_to_write := 5 + 1\<rparr>)
              (assign_loop ?st {3} 8 8 1 (5 + 1) 8 [])" .
  moreover have "cons_sink (?sa\<lparr>pos_written := 0, pos_to_write := 5 + 1\<rparr>)
              (assign_loop ?st {3} 8 8 1 (5 + 1) 8 [])
          = Inr [sink_at ''a'' 3 0 6 True]"
    by (simp add: sink_at_def)
  ultimately have b: "assign_loop ?st {3} 8 8 1 0 0 [?sa] = Inr [sink_at ''a'' 3 0 6 True]"
    by (simp only:)
  note tc = reliable_scan_window_or_defer [OF st'(1,2) sa(1,3) d3 rd', of "[?sb]"]
  have "\<forall>q. 0 \<le> q \<and> q < source_pos_read ?st' \<longrightarrow> sink_pointer ?st' q \<noteq> Some newline"
  proof (intro allI impI)
    fix q :: int
    assume "0 \<le> q \<and> q < source_pos_read ?st'"
    with st'(3) consider "q = 0" | "q = 1" | "q = 2" by linarith
    then show "sink_pointer ?st' q \<noteq> Some newline"
      by cases (simp_all add: sink_pointer_tee_holding newline_def)
  qed
  from tc [THEN conjunct2, THEN conjunct2, THEN mp, OF this]
  have "assign_loop ?st' {3, 4} 3 3 1 0 0 [?sa, ?sb]
          = Inr (?sa\<lparr>pos_written := 0, pos_to_write := 0\<rparr> # [?sb])" .
  moreover have "?sa\<lparr>pos_written := 0, pos_to_write := 0\<rparr> = ?sa"
    by (simp add: sink_at_def)
  ultimately have c: "assign_loop ?st' {3, 4} 3 3 1 0 0 [?sa, ?sb] = Inr [?sa, ?sb]"
    by (simp only:)
  from a b c show ?thesis
    by (intro conjI)
qed

subsection \<open>Fair scattering and the bounds of the offsets\<close>

text \<open>
  C4 on the code. Scatter mode, three sinks that are idle and write-ready, one fresh
  byte: \<open>available_data = 1\<close>, \<open>available_sinks = 3\<close>, \<open>data_per_sink = 0\<close>. The first sink
  is assigned the remainder, 1 byte; the second is assigned \<open>data_per_sink = 0\<close> bytes, which
  makes \<open>data_to_assign = 0\<close> again; so the third is assigned the remainder a second time,
  the window from 1 to 2, and not \<open>data_per_sink = 0\<close> bytes.
\<close>

theorem remainder_assigned_to_third_sink:
  "allocate_data_to_sinks (tee_holding 4096 True False ''x'') {3, 4, 5}
       [sink_at ''a'' 3 0 0 True, sink_at ''b'' 4 0 0 True, sink_at ''c'' 5 0 0 True]
     = Inr [sink_at ''a'' 3 0 1 True, sink_at ''b'' 4 1 1 True, sink_at ''c'' 5 1 2 True]"
  by (simp add: allocate_data_to_sinks_def fresh_and_available_def sink_at_def
      tee_holding_def size_t_def Let_def)

text \<open>
  C2 on the code. The program in scatter mode with three output files and the one byte
  \<open>x\<close> on standard input. The first iteration reads the byte. In the second all three
  sinks are write-ready, and the scheduling pass gives the third sink
  \<open>pos_to_write = 2\<close> while \<open>source_pos_read = 1\<close>. The \<^verbatim>\<open>write\<close> to that sink then takes a
  byte of the pool that was never read from standard input.
\<close>

theorem scatter_pos_to_write_beyond_source:
  "(case main 4096 True False True [(''a'', 3), (''b'', 4), (''c'', 5)] ''x''
           [env_ready {3, 4, 5} (\<lambda>_. Write_ok 4096) 4095] of
      Continue (fs, eof, st) \<Rightarrow>
        source_pos_read st = 1
        \<and> (case allocate_data_to_sinks st
                    (set (map fd (filter (pending st) fs)) \<inter> {3, 4, 5}) fs of
              Inr fs' \<Rightarrow> map pos_written fs' = [0, 1, 1] \<and> map pos_to_write fs' = [1, 1, 2]
            | Inl f \<Rightarrow> False)
    | _ \<Rightarrow> False)
   \<and> (case main 4096 True False True [(''a'', 3), (''b'', 4), (''c'', 5)] ''x''
           [env_ready {3, 4, 5} (\<lambda>_. Write_ok 4096) 4095,
            env_ready {3, 4, 5} (\<lambda>_. Write_ok 4096) 4095] of
      Abort f \<Rightarrow> f = Undefined_read
    | _ \<Rightarrow> False)"
  by code_simp

subsection \<open>The loop without output files\<close>

lemma source_read_ok:
  assumes "0 < buffer_size st" and "al"
    and "d = take (min (Suc k) (nat (buffer_size st - source_pos_read st mod buffer_size st)))
               (stdin_rest st)"
  shows "\<exists>st'. source_read al (Read_ok k) st = Inr (int (length d), st')
         \<and> stdin_rest st' = drop (length d) (stdin_rest st)
         \<and> source_pos_read st' = source_pos_read st + int (length d)
         \<and> write_calls st' = write_calls st \<and> outs st' = outs st
         \<and> buffer_size st' = buffer_size st \<and> opt_scatter st' = opt_scatter st"
  using assms
  by (simp add: source_read_def source_buffer_def memory_allocate_def Let_def)

lemma sink_write_no_sinks:
  "sink_write wa fds [] st = Inr ([], 0, memory_free (source_pos_read st) st)"
  by (simp add: sink_write_def write_pass_def allocate_data_to_sinks_def
      fresh_and_available_def)

lemma memory_free_fields:
  "buffer_size (memory_free pos st) = buffer_size st"
  "opt_scatter (memory_free pos st) = opt_scatter st"
  "opt_line (memory_free pos st) = opt_line st"
  "source_pos_read (memory_free pos st) = source_pos_read st"
  "stdin_rest (memory_free pos st) = stdin_rest st"
  "outs (memory_free pos st) = outs st"
  "write_calls (memory_free pos st) = write_calls st"
  "allocated_pool_end (memory_free pos st) = allocated_pool_end st"
  "pool_begin (memory_free pos st) = pos div buffer_size st"
  by (simp_all add: memory_free_def Let_def)


lemma iteration_no_sinks:
  assumes "0 < buffer_size st" and "select_ok e" and "stdin_ready e" and "alloc_ok e"
    and "rd e = Read_ok k"
  shows "\<exists>st' n. iteration e ([], False, st) = Continue ([], stdin_rest st = [], st')
           \<and> 0 < n \<and> stdin_rest st' = drop n (stdin_rest st)
           \<and> source_pos_read st' = source_pos_read st + int (min n (length (stdin_rest st)))
           \<and> write_calls st' = write_calls st \<and> outs st' = outs st
           \<and> buffer_size st' = buffer_size st"
proof -
  let ?st1 = "memory_free (source_pos_read st) st"
  define n where
    "n = min (Suc k) (nat (buffer_size ?st1 - source_pos_read ?st1 mod buffer_size ?st1))"
  define d where "d = take n (stdin_rest ?st1)"
  have b: "0 < buffer_size ?st1" using assms(1) by (simp add: memory_free_fields)
  from source_read_ok [OF b assms(4) d_def [unfolded n_def]] obtain st' where
    rd: "source_read (alloc_ok e) (Read_ok k) ?st1 = Inr (int (length d), st')"
    and st': "stdin_rest st' = drop (length d) (stdin_rest ?st1)"
      "source_pos_read st' = source_pos_read ?st1 + int (length d)"
      "write_calls st' = write_calls ?st1" "outs st' = outs ?st1"
      "buffer_size st' = buffer_size ?st1"
    using assms(4) by auto
  have "source_pos_read st mod buffer_size st < buffer_size st"
    using assms(1) by simp
  then have n: "0 < n"
    by (simp add: n_def memory_free_fields)
  have len: "length d = min n (length (stdin_rest st))"
    by (simp add: d_def memory_free_fields min.commute)
  have empty: "(int (length d) = 0) = (stdin_rest st = [])"
    using n by (auto simp: len min_def split: if_splits)
  have drop: "drop (length d) (stdin_rest st) = drop n (stdin_rest st)"
    by (simp add: len min_def)
  have "iteration e ([], False, st)
          = Continue ([], (if int (length d) = 0 then True else False), st')"
    using assms(2,3,5) rd
    by (simp add: iteration_def sink_write_no_sinks)
  with empty have "iteration e ([], False, st) = Continue ([], stdin_rest st = [], st')"
    by simp
  with n st' len drop show ?thesis
    by (intro exI [of _ st'] exI [of _ n]) (simp add: memory_free_fields)
qed

lemma run_no_sinks:
  assumes "0 < buffer_size st"
    and "\<forall>e \<in> set es. select_ok e \<and> stdin_ready e \<and> alloc_ok e \<and> rd e \<noteq> Read_failed"
    and "length (stdin_rest st) < length es"
  shows "\<exists>st'. run es ([], False, st) = Return 0 ([], True, st')
           \<and> stdin_rest st' = []
           \<and> source_pos_read st' = source_pos_read st + int (length (stdin_rest st))
           \<and> write_calls st' = write_calls st \<and> outs st' = outs st"
  using assms
proof (induction es arbitrary: st)
  case Nil
  then show ?case by simp
next
  case (Cons e es)
  from Cons.prems(2) obtain k where e: "select_ok e" "stdin_ready e" "alloc_ok e" "rd e = Read_ok k"
    by (cases "rd e") auto
  from iteration_no_sinks [OF Cons.prems(1) e] obtain st1 n where
    it: "iteration e ([], False, st) = Continue ([], stdin_rest st = [], st1)"
    and n: "0 < n" and st1: "stdin_rest st1 = drop n (stdin_rest st)"
      "source_pos_read st1 = source_pos_read st + int (min n (length (stdin_rest st)))"
      "write_calls st1 = write_calls st" "outs st1 = outs st" "buffer_size st1 = buffer_size st"
    by blast
  have nf: "\<not> finished ([], False, st)" by (simp add: finished_def)
  show ?case
  proof (cases "stdin_rest st = []")
    case True
    with it have "iteration e ([], False, st) = Continue ([], True, st1)" by simp
    moreover have "finished ([], True, st1)" by (simp add: finished_def)
    then have "run es ([], True, st1) = Return 0 ([], True, st1)"
      by (cases es) simp_all
    ultimately have "run (e # es) ([], False, st) = Return 0 ([], True, st1)"
      using nf by simp
    with True st1 show ?thesis by simp
  next
    case False
    with it have it': "iteration e ([], False, st) = Continue ([], False, st1)" by simp
    from False n st1(1) have less: "length (stdin_rest st1) < length (stdin_rest st)"
      by (cases "stdin_rest st") simp_all
    have "\<exists>st'. run es ([], False, st1) = Return 0 ([], True, st')
           \<and> stdin_rest st' = []
           \<and> source_pos_read st' = source_pos_read st1 + int (length (stdin_rest st1))
           \<and> write_calls st' = write_calls st1 \<and> outs st' = outs st1"
    proof (rule Cons.IH)
      show "0 < buffer_size st1" using Cons.prems(1) st1(5) by simp
      show "\<forall>e \<in> set es. select_ok e \<and> stdin_ready e \<and> alloc_ok e \<and> rd e \<noteq> Read_failed"
        using Cons.prems(2) by simp
      show "length (stdin_rest st1) < length es"
        using less Cons.prems(3) by simp
    qed
    then obtain st' where r: "run es ([], False, st1) = Return 0 ([], True, st')"
      "stdin_rest st' = []"
      "source_pos_read st' = source_pos_read st1 + int (length (stdin_rest st1))"
      "write_calls st' = write_calls st1" "outs st' = outs st1"
      by blast
    from nf it' r(1) have "run (e # es) ([], False, st) = Return 0 ([], True, st')"
      by simp
    moreover have "source_pos_read st1 + int (length (stdin_rest st1))
        = source_pos_read st + int (length (stdin_rest st))"
      using st1(1,2) by (simp add: min_def)
    ultimately show ?thesis
      using r st1 by simp
  qed
qed

text \<open>
  C10. With no output file, when \<^verbatim>\<open>malloc\<close> of the empty \<open>files\<close> array does not fail,
  \<^verbatim>\<open>select\<close> succeeds and reports standard input ready (it is the only descriptor
  selected), and the reads and allocations succeed: given one answer of the operating
  system for each byte of input and one more, the loop ends with exit status 0, all of
  standard input has been read, no \<^verbatim>\<open>write\<close> call has been issued and no descriptor has
  received a byte. The size of the buffer is positive; the mode does not matter.
\<close>

theorem no_output_files_reads_to_eof:
  assumes "0 < b"
    and "\<forall>e \<in> set es. select_ok e \<and> stdin_ready e \<and> alloc_ok e \<and> rd e \<noteq> Read_failed"
    and "length input < length es"
  shows "\<exists>st. main b scatter line True [] input es = Return 0 ([], True, st)
           \<and> stdin_rest st = [] \<and> source_pos_read st = int (length input)
           \<and> write_calls st = [] \<and> outs st = (\<lambda>_. [])"
proof -
  have "0 < buffer_size (init_tee b scatter line input)"
    "length (stdin_rest (init_tee b scatter line input)) < length es"
    using assms(1,3) by (simp_all add: init_tee_def)
  from run_no_sinks [OF this(1) assms(2) this(2)] show ?thesis
    by (simp add: main_def init_tee_def)
qed

theorem no_output_files_reads_to_eof_witness:
  "\<exists>st. main 4 True True True [] ''abcde''
            (replicate 6 (env_ready {} (\<lambda>_. Write_ok 0) 4095)) = Return 0 ([], True, st)
         \<and> stdin_rest st = [] \<and> source_pos_read st = int (length ''abcde'')
         \<and> write_calls st = [] \<and> outs st = (\<lambda>_. [])"
  using no_output_files_reads_to_eof [of 4 "replicate 6 (env_ready {} (\<lambda>_. Write_ok 0) 4095)"
      "''abcde''" True True]
  by (simp add: env_ready_def)

subsection \<open>Replicate mode\<close>

lemma chunk_of_add:
  assumes "0 < (b::int)" and "0 \<le> k" and "x mod b + k < b"
  shows "(x + k) div b = x div b" and "(x + k) mod b = x mod b + k"
proof -
  have eq: "x + k = b * (x div b) + (x mod b + k)" by simp
  have nonneg: "0 \<le> x mod b + k" using assms(1,2) by (simp add: add_nonneg_nonneg)
  from int_div_pos_eq [OF eq nonneg assms(3)] show "(x + k) div b = x div b" .
  from int_mod_pos_eq [OF eq nonneg assms(3)] show "(x + k) mod b = x mod b + k" .
qed

lemma div_mult_le_int:
  assumes "0 < (b::int)"
  shows "p div b * b \<le> p"
proof -
  have "p = p div b * b + p mod b" by simp
  moreover have "0 \<le> p mod b" using assms by simp
  ultimately show ?thesis by linarith
qed

lemma le_div_int:
  assumes "0 < (b::int)" and "i * b \<le> p"
  shows "i \<le> p div b"
  using zdiv_mono1 [OF assms(2,1)] assms(1) by simp

lemma div_less_int:
  assumes "0 < (b::int)" and "p < i * b"
  shows "p div b < i"
proof (rule ccontr)
  assume "\<not> p div b < i"
  then have "i * b \<le> p div b * b" using assms(1) by simp
  with div_mult_le_int [OF assms(1), of p] assms(2) show False by linarith
qed

lemma read_bytes_Some:
  "read_bytes chunk off n = Some bs \<Longrightarrow>
     length bs = n \<and> (\<forall>k<n. chunk (off + int k) = Some (bs ! k))"
proof (induction n arbitrary: off bs)
  case 0
  then show ?case by simp
next
  case (Suc n)
  from Suc.prems obtain c tl where c: "chunk off = Some c"
    and tl: "read_bytes chunk (off + 1) n = Some tl" and bs: "bs = c # tl"
    by (auto split: option.splits)
  from Suc.IH [OF tl] have len: "length tl = n"
    and nth: "\<And>k. k < n \<Longrightarrow> chunk (off + 1 + int k) = Some (tl ! k)" by auto
  have "chunk (off + int k) = Some (bs ! k)" if "k < Suc n" for k
  proof (cases k)
    case 0
    with c bs show ?thesis by simp
  next
    case (Suc j)
    with that nth [of j] bs show ?thesis by (simp add: ac_simps)
  qed
  with len bs show ?case by simp
qed

lemma pool_ok_frame:
  assumes "st' = st\<lparr>write_calls := wc, outs := os\<rparr>"
  shows "pool_ok input st' = pool_ok input st"
  using assms by (simp add: pool_ok_def sink_pointer_def)

lemma sink_ok_frame:
  assumes "source_pos_read st' = source_pos_read st" and "pool_begin st' = pool_begin st"
    and "buffer_size st' = buffer_size st" and "outs st' (fd si) = outs st (fd si)"
  shows "sink_ok input st' si = sink_ok input st si"
  using assms by (simp add: sink_ok_def)

lemma sink_write_one_other_outs:
  assumes "sink_write_one wa si st = Inr (si', n, st')" and "f \<noteq> fd si"
  shows "outs st' f = outs st f"
proof -
  obtain pool off0 sz where "sink_buffer st si = ((pool, off0), sz)"
    by (metis surj_pair)
  from sink_write_one_cases [OF assms(1) this] assms(2) show ?thesis by auto
qed

lemma sink_write_one_ok:
  assumes pool: "pool_ok input st" and sk: "sink_ok input st si" and act: "active si"
    and ptw: "pos_to_write si = source_pos_read st"
    and bound: "int (length input) < 2 ^ 63"
    and one: "sink_write_one wa si st = Inr (si', n, st')"
  shows "sink_ok input st' si'"
proof -
  let ?b = "buffer_size st"
  let ?pw = "pos_written si"
  let ?spr = "source_pos_read st"
  from pool have b: "0 < ?b" and spr: "?spr \<le> int (length input)"
    and valid: "\<And>pos. pool_begin st * ?b \<le> pos \<Longrightarrow> pos < ?spr
                  \<Longrightarrow> sink_pointer st pos = Some (input ! nat pos)"
    by (simp_all add: pool_ok_def)
  from sk act have pw: "0 \<le> ?pw" "?pw \<le> ?spr"
    and out: "outs st (fd si) = take (nat ?pw) input"
    and live: "pool_begin st * ?b \<le> ?pw"
    by (simp_all add: sink_ok_def)
  have "0 \<le> ?spr - ?pw" "?spr - ?pw < 2 ^ 64"
    using pw spr bound by simp_all
  then have st: "size_t (pos_to_write si - ?pw) = ?spr - ?pw"
    by (simp add: size_t_def ptw)
  define sz where "sz = min (?b - ?pw mod ?b) (?spr - ?pw)"
  have sb: "sink_buffer st si = ((?pw div ?b, ?pw mod ?b), sz)"
    by (simp add: sink_buffer_def Let_def st sz_def)
  have keeps: "source_pos_read st' = ?spr" "pool_begin st' = pool_begin st"
    "buffer_size st' = ?b"
    using sink_write_one_keeps [OF one] by simp_all
  from sink_write_one_cases [OF one sb] show ?thesis
  proof (elim disjE conjE exE)
    assume "si' = si\<lparr>active := False\<rparr>"
      "st' = st\<lparr>write_calls := write_calls st @ [(fd si, sz)]\<rparr>"
    with sk show ?thesis by (simp add: sink_ok_def)
  next
    fix k bytes
    assume n: "n = min (int k) sz" and si': "si' = si\<lparr>pos_written := ?pw + n\<rparr>"
      and rb: "read_bytes (buffers st (?pw div ?b)) (?pw mod ?b) (nat n) = Some bytes"
      and st': "st' = st\<lparr>write_calls := write_calls st @ [(fd si, sz)],
                 outs := (outs st)(fd si := outs st (fd si) @ bytes)\<rparr>"
    have "?pw mod ?b < ?b" using b by simp
    with pw have sz0: "0 \<le> sz" by (simp add: sz_def)
    with n have n0: "0 \<le> n" by simp
    from n have nle: "n \<le> ?spr - ?pw" "?pw mod ?b + n \<le> ?b"
      by (simp_all add: sz_def)
    from read_bytes_Some [OF rb] have len: "length bytes = nat n"
      and nth: "\<And>j. j < nat n \<Longrightarrow>
                  buffers st (?pw div ?b) (?pw mod ?b + int j) = Some (bytes ! j)"
      by auto
    have byte: "bytes ! j = input ! (nat ?pw + j)" if "j < nat n" for j
    proof -
      from that n0 have j: "?pw mod ?b + int j < ?b" "?pw + int j < ?spr"
        using nle by linarith+
      from chunk_of_add [OF b _ j(1)] have
        "(?pw + int j) div ?b = ?pw div ?b" "(?pw + int j) mod ?b = ?pw mod ?b + int j"
        by simp_all
      moreover from valid [of "?pw + int j"] live j(2)
      have "sink_pointer st (?pw + int j) = Some (input ! nat (?pw + int j))" by simp
      ultimately have "buffers st (?pw div ?b) (?pw mod ?b + int j)
                         = Some (input ! nat (?pw + int j))"
        using pw(1) by (simp add: sink_pointer_def)
      with nth [OF that] pw(1) show ?thesis
        by (simp add: nat_add_distrib)
    qed
    have fits: "nat ?pw + nat n \<le> length input"
      using nle(1) spr pw n0 by linarith
    have "bytes = take (nat n) (drop (nat ?pw) input)"
    proof (rule nth_equalityI)
      show "length bytes = length (take (nat n) (drop (nat ?pw) input))"
        using len fits by simp
      show "bytes ! j = take (nat n) (drop (nat ?pw) input) ! j" if "j < length bytes" for j
        using that len byte [of j] fits by simp
    qed
    with out have "outs st (fd si) @ bytes = take (nat ?pw + nat n) input"
      by (simp add: take_add)
    also have "nat ?pw + nat n = nat (?pw + n)"
      using pw(1) n0 by (simp add: nat_add_distrib)
    finally have "outs st' (fd si') = take (nat (pos_written si')) input"
      by (simp add: st' si')
    with pw n0 nle(1) live act show ?thesis
      by (simp add: sink_ok_def keeps si')
  qed
qed

lemma write_loop_ok:
  assumes "pool_ok input st" and "int (length input) < 2 ^ 63"
    and "\<forall>si \<in> set sis. sink_ok input st si \<and> pos_to_write si = source_pos_read st
                          \<and> (fd si \<in> fds \<longrightarrow> active si)"
    and "distinct (map fd sis)"
    and "write_loop wa fds sis m w st = Inr (sis', m', w', st')"
  shows "(\<forall>si \<in> set sis'. sink_ok input st' si)
       \<and> (\<forall>f. f \<notin> fd ` set sis \<longrightarrow> outs st' f = outs st f)"
  using assms
proof (induction sis arbitrary: m w st sis')
  case Nil
  then show ?case by simp
next
  case (Cons si rest)
  from Cons.prems(5) show ?case
  proof (rule write_loop_ConsE)
    fix si1 n st1 tl
    assume sis': "sis' = si1 # tl"
      and loop: "write_loop wa fds rest (if active si1 then min m (pos_written si1) else m)
                   (w + n) st1 = Inr (tl, m', w', st')"
      and step: "(fd si \<notin> fds \<and> si1 = si \<and> n = 0 \<and> st1 = st)
                   \<or> (fd si \<in> fds \<and> sink_write_one wa si st = Inr (si1, n, st1))"
    from Cons.prems(3) have si: "sink_ok input st si" "pos_to_write si = source_pos_read st"
      "fd si \<in> fds \<Longrightarrow> active si" by simp_all
    from Cons.prems(4) have dist: "fd si \<notin> fd ` set rest" "distinct (map fd rest)"
      by simp_all
    have "source_pos_read st1 = source_pos_read st \<and> pool_begin st1 = pool_begin st
      \<and> buffer_size st1 = buffer_size st \<and> pool_ok input st1
      \<and> (\<forall>f. f \<noteq> fd si \<longrightarrow> outs st1 f = outs st f)
      \<and> sink_ok input st1 si1 \<and> fd si1 = fd si"
      using step
    proof (elim disjE conjE)
      assume "si1 = si" "st1 = st"
      with Cons.prems(1) si(1) show ?thesis by simp
    next
      assume in_fds: "fd si \<in> fds" and one: "sink_write_one wa si st = Inr (si1, n, st1)"
      from pool_ok_frame [OF sink_write_one_frame [OF one]] Cons.prems(1)
      have "pool_ok input st1" by simp
      moreover have "\<forall>f. f \<noteq> fd si \<longrightarrow> outs st1 f = outs st f"
        using sink_write_one_other_outs [OF one] by simp
      moreover
      from sink_write_one_ok [OF Cons.prems(1) si(1) si(3) [OF in_fds] si(2) Cons.prems(2) one]
      have "sink_ok input st1 si1" .
      moreover from sink_write_one_fields [OF one] have "fd si1 = fd si" by simp
      ultimately show ?thesis
        using sink_write_one_keeps [OF one] by simp
    qed
    then have st1: "source_pos_read st1 = source_pos_read st" "pool_begin st1 = pool_begin st"
      "buffer_size st1 = buffer_size st" "pool_ok input st1"
      "\<And>f. f \<noteq> fd si \<Longrightarrow> outs st1 f = outs st f"
      "sink_ok input st1 si1" "fd si1 = fd si"
      by simp_all
    have rest_ok: "\<forall>r \<in> set rest. sink_ok input st1 r \<and> pos_to_write r = source_pos_read st1
                          \<and> (fd r \<in> fds \<longrightarrow> active r)"
    proof
      fix r assume r: "r \<in> set rest"
      with dist(1) have "fd r \<noteq> fd si" by (metis imageI)
      with st1(5) have "outs st1 (fd r) = outs st (fd r)" by simp
      from sink_ok_frame [OF st1(1,2,3) this, of input] r Cons.prems(3) st1(1)
      show "sink_ok input st1 r \<and> pos_to_write r = source_pos_read st1
                          \<and> (fd r \<in> fds \<longrightarrow> active r)" by simp
    qed
    from Cons.IH [OF st1(4) Cons.prems(2) rest_ok dist(2) loop]
    have ih: "\<forall>s \<in> set tl. sink_ok input st' s"
      "\<And>f. f \<notin> fd ` set rest \<Longrightarrow> outs st' f = outs st1 f" by simp_all
    from write_loop_keeps [OF loop] have st': "source_pos_read st' = source_pos_read st1"
      "pool_begin st' = pool_begin st1" "buffer_size st' = buffer_size st1" by simp_all
    from ih(2) [of "fd si1"] dist(1) st1(7) have "outs st' (fd si1) = outs st1 (fd si1)"
      by simp
    from sink_ok_frame [OF st' this, of input] st1(6) have "sink_ok input st' si1" by simp
    moreover have "outs st' f = outs st f" if "f \<notin> fd ` set (si # rest)" for f
      using that ih(2) [of f] st1(5) [of f] by simp
    ultimately show ?thesis
      using ih(1) sis' by simp
  qed
qed

lemma memory_free_pool_ok:
  assumes "pool_ok input st" and "pool_begin st * buffer_size st \<le> m"
    and "m \<le> source_pos_read st"
  shows "pool_ok input (memory_free m st)"
    and "pool_begin (memory_free m st) * buffer_size st \<le> m"
proof -
  let ?b = "buffer_size st"
  from assms(1) have b: "0 < ?b" and pb: "0 \<le> pool_begin st"
    and valid: "\<And>pos. pool_begin st * ?b \<le> pos \<Longrightarrow> pos < source_pos_read st
                  \<Longrightarrow> sink_pointer st pos = Some (input ! nat pos)"
    by (simp_all add: pool_ok_def)
  have le: "m div ?b * ?b \<le> m" by (rule div_mult_le_int [OF b])
  have mono: "pool_begin st \<le> m div ?b" by (rule le_div_int [OF b assms(2)])
  show "pool_begin (memory_free m st) * buffer_size st \<le> m"
    using le by (simp add: memory_free_fields)
  have "sink_pointer (memory_free m st) pos = Some (input ! nat pos)"
    if "m div ?b * ?b \<le> pos" "pos < source_pos_read st" for pos
  proof -
    from that(1) have "m div ?b \<le> pos div ?b" by (rule le_div_int [OF b])
    then have "sink_pointer (memory_free m st) pos = sink_pointer st pos"
      by (simp add: sink_pointer_def memory_free_def clear_chunks_def Let_def)
    moreover have "pool_begin st * ?b \<le> pos"
      using mono that(1) b by (meson mult_right_mono less_imp_le order_trans)
    ultimately show ?thesis using valid that(2) by simp
  qed
  with assms(1,3) le mono pb show "pool_ok input (memory_free m st)"
    by (simp add: pool_ok_def memory_free_fields)
qed

lemma memory_allocate_Inr:
  assumes "memory_allocate al pool st = Inr st0"
  shows "buffer_size st0 = buffer_size st" "source_pos_read st0 = source_pos_read st"
    "stdin_rest st0 = stdin_rest st" "outs st0 = outs st" "pool_begin st0 = pool_begin st"
    "opt_scatter st0 = opt_scatter st" "write_calls st0 = write_calls st"
    "pool < allocated_pool_end st0" "allocated_pool_end st \<le> allocated_pool_end st0"
    "\<And>i off. i < allocated_pool_end st \<Longrightarrow> buffers st0 i off = buffers st i off"
  using assms
  by (auto simp: memory_allocate_def clear_chunks_def split: if_splits)

lemma source_read_Inr:
  assumes "source_read al rdres st = Inr (n, st')"
  obtains k st0 d where "rdres = Read_ok k"
    and "memory_allocate al (source_pos_read st div buffer_size st) st = Inr st0"
    and "d = take (min (Suc k) (nat (buffer_size st - source_pos_read st mod buffer_size st)))
               (stdin_rest st0)"
    and "n = int (length d)"
    and "st' = st0\<lparr>buffers := store_bytes (source_pos_read st div buffer_size st)
                               (source_pos_read st mod buffer_size st) d (buffers st0),
                   source_pos_read := source_pos_read st0 + n,
                   stdin_rest := drop (length d) (stdin_rest st0)\<rparr>"
proof (cases "memory_allocate al (source_pos_read st div buffer_size st) st")
  case (Inl f)
  with assms show ?thesis
    by (simp add: source_read_def source_buffer_def Let_def)
next
  case (Inr st0)
  show ?thesis
  proof (cases rdres)
    case Read_failed
    with assms Inr show ?thesis
      by (simp add: source_read_def source_buffer_def Let_def)
  next
    case (Read_ok k)
    define d where
      "d = take (min (Suc k) (nat (buffer_size st - source_pos_read st mod buffer_size st)))
             (stdin_rest st0)"
    from assms Inr Read_ok have "n = int (length d)"
      and "st' = st0\<lparr>buffers := store_bytes (source_pos_read st div buffer_size st)
                               (source_pos_read st mod buffer_size st) d (buffers st0),
                   source_pos_read := source_pos_read st0 + n,
                   stdin_rest := drop (length d) (stdin_rest st0)\<rparr>"
      unfolding d_def
      by (auto simp: source_read_def source_buffer_def Let_def)
    with that [OF Read_ok Inr d_def] show ?thesis
      by blast
  qed
qed

lemma source_read_pool_ok:
  assumes pool: "pool_ok input st" and rd: "source_read al rdres st = Inr (n, st')"
  shows "pool_ok input st'" and "n = 0 \<Longrightarrow> stdin_rest st' = []"
    and "source_pos_read st \<le> source_pos_read st'" and "outs st' = outs st"
    and "pool_begin st' = pool_begin st" and "buffer_size st' = buffer_size st"
    and "opt_scatter st' = opt_scatter st"
proof -
  let ?b = "buffer_size st"
  let ?spr = "source_pos_read st"
  let ?pool = "?spr div ?b"
  let ?off = "?spr mod ?b"
  from pool have b: "0 < ?b" and spr: "0 \<le> ?spr" "?spr \<le> int (length input)"
    and rest: "stdin_rest st = drop (nat ?spr) input"
    and ape: "?spr \<le> allocated_pool_end st * ?b"
    and pb: "0 \<le> pool_begin st" "pool_begin st * ?b \<le> ?spr"
    and valid: "\<And>pos. pool_begin st * ?b \<le> pos \<Longrightarrow> pos < ?spr
                  \<Longrightarrow> sink_pointer st pos = Some (input ! nat pos)"
    by (simp_all add: pool_ok_def)
  from rd obtain k st0 d where k: "rdres = Read_ok k"
    and al: "memory_allocate al ?pool st = Inr st0"
    and d: "d = take (min (Suc k) (nat (?b - ?off))) (stdin_rest st0)"
    and n: "n = int (length d)"
    and st': "st' = st0\<lparr>buffers := store_bytes ?pool ?off d (buffers st0),
                   source_pos_read := source_pos_read st0 + n,
                   stdin_rest := drop (length d) (stdin_rest st0)\<rparr>"
    by (rule source_read_Inr)
  note st0 = memory_allocate_Inr [OF al]
  have off: "0 \<le> ?off" "?off < ?b" using b by simp_all
  have d': "d = take (min (Suc k) (nat (?b - ?off))) (drop (nat ?spr) input)"
    by (simp add: d st0 rest)
  have n0: "0 \<le> n" by (simp add: n)
  have nle: "?off + n \<le> ?b" using off by (simp add: n d)
  have fits: "nat ?spr + length d \<le> length input"
    using spr by (simp add: d')
  show "outs st' = outs st" "pool_begin st' = pool_begin st" "buffer_size st' = buffer_size st"
    "opt_scatter st' = opt_scatter st"
    by (simp_all add: st' st0)
  show "source_pos_read st \<le> source_pos_read st'"
    using n0 by (simp add: st' st0)
  show "stdin_rest st' = []" if "n = 0"
  proof -
    from that have "d = []" by (simp add: n)
    moreover have "0 < min (Suc k) (nat (?b - ?off))" using off by simp
    ultimately have "stdin_rest st0 = []"
      using d by (simp add: take_eq_Nil)
    then show ?thesis by (simp add: st')
  qed
  have new_spr: "source_pos_read st' = ?spr + n" by (simp add: st' st0)
  have chunk_end: "?spr + n \<le> (?pool + 1) * ?b"
  proof -
    have "?pool * ?b + ?off = ?spr" by simp
    moreover have "(?pool + 1) * ?b = ?pool * ?b + ?b" by (simp add: algebra_simps)
    ultimately show ?thesis using nle by linarith
  qed
  have "(?pool + 1) * ?b \<le> allocated_pool_end st0 * ?b"
    using st0(8) b by (simp add: mult_right_mono)
  with chunk_end have ape': "?spr + n \<le> allocated_pool_end st' * ?b"
    by (simp add: st')
  have rest': "stdin_rest st' = drop (nat (?spr + n)) input"
    using spr n0 by (simp add: st' st0 rest n nat_add_distrib add.commute)
  have valid': "sink_pointer st' pos = Some (input ! nat pos)"
    if "pool_begin st * ?b \<le> pos" "pos < ?spr + n" for pos
  proof -
    from pb(1) b have "0 \<le> pool_begin st * ?b" by simp
    with that(1) have pos0: "0 \<le> pos" by simp
    show ?thesis
    proof (cases "pos < ?spr")
      case True
      from True ape have "pos div ?b < allocated_pool_end st"
        by (intro div_less_int [OF b]) simp
      then have same: "buffers st0 (pos div ?b) (pos mod ?b) = buffers st (pos div ?b) (pos mod ?b)"
        by (rule st0(10))
      have "\<not> (pos div ?b = ?pool \<and> ?off \<le> pos mod ?b)"
      proof
        assume a: "pos div ?b = ?pool \<and> ?off \<le> pos mod ?b"
        have "pos div ?b * ?b + pos mod ?b = pos" "?pool * ?b + ?off = ?spr" by simp_all
        moreover from a have "pos div ?b * ?b = ?pool * ?b" by simp
        ultimately show False using a True by linarith
      qed
      then have "buffers st' (pos div ?b) (pos mod ?b) = buffers st0 (pos div ?b) (pos mod ?b)"
        by (auto simp: st' store_bytes_def)
      with same pos0 have "sink_pointer st' pos = sink_pointer st pos"
        by (simp add: sink_pointer_def st' st0)
      with valid [OF that(1) True] show ?thesis by simp
    next
      case False
      define j where "j = pos - ?spr"
      from False that(2) have j: "0 \<le> j" "j < n" by (simp_all add: j_def)
      with nle have "?off + j < ?b" by simp
      from chunk_of_add [OF b j(1) this] have
        "pos div ?b = ?pool" "pos mod ?b = ?off + j"
        by (simp_all add: j_def)
      then have "sink_pointer st' pos = Some (d ! nat j)"
        using pos0 j by (simp add: sink_pointer_def st' st0 store_bytes_def n)
      also have "d ! nat j = input ! (nat ?spr + nat j)"
      proof -
        from j have "nat j < length d" by (simp add: n)
        then have "nat j < min (Suc k) (nat (?b - ?off))" by (simp add: d')
        then have "d ! nat j = drop (nat ?spr) input ! nat j"
          unfolding d' by (rule nth_take)
        also have "\<dots> = input ! (nat ?spr + nat j)"
          using spr by (intro nth_drop) simp
        finally show ?thesis .
      qed
      also have "nat ?spr + nat j = nat pos"
        using spr(1) j(1) by (simp add: j_def nat_add_distrib [symmetric])
      finally show ?thesis .
    qed
  qed
  have "?spr + n \<le> int (length input)" using fits spr(1) by (simp add: n)
  moreover have "pool_begin st' = pool_begin st" "buffer_size st' = ?b"
    by (simp_all add: st' st0)
  ultimately show "pool_ok input st'"
    using b spr(1) n0 rest' ape' pb valid' by (simp add: pool_ok_def new_spr)
qed

lemma selected_is_active:
  assumes "distinct (map fd files)" and "si \<in> set files"
    and "fd si \<in> set (map fd (filter (pending st) files)) \<inter> rdy"
  shows "active si"
proof (rule ccontr)
  assume "\<not> active si"
  then have np: "\<not> pending st si" by (simp add: pending_def)
  from assms(2) obtain i where i: "i < length files" "files ! i = si"
    by (auto simp: in_set_conv_nth)
  from not_pending_not_selected [OF assms(1) i(1), of st] np i(2) assms(3)
  show False by simp
qed

lemma sink_write_inv:
  assumes inv: "replicate_inv input (files, eof, st)" and bound: "int (length input) < 2 ^ 63"
    and sw: "sink_write wa (set (map fd (filter (pending st) files)) \<inter> rdy) files st
               = Inr (files', written, st')"
  shows "replicate_inv input (files', eof, st')"
proof -
  let ?S = "set (map fd (filter (pending st) files)) \<inter> rdy"
  let ?files0 = "map (\<lambda>si. si\<lparr>pos_to_write := source_pos_read st\<rparr>) files"
  from inv have rep: "\<not> opt_scatter st" and dist: "distinct (map fd files)"
    and pool: "pool_ok input st" and eof: "eof \<longrightarrow> stdin_rest st = []"
    and sinks: "\<forall>si \<in> set files. sink_ok input st si"
    by (simp_all add: replicate_inv_def)
  from sw rep obtain min_pos st1 where
    loop: "write_loop wa ?S ?files0 (source_pos_read st) 0 st = Inr (files', min_pos, written, st1)"
    and st': "st' = memory_free min_pos st1"
    by (auto simp: sink_write_def write_pass_def allocate_replicate split: sum.splits)
  have fds0: "map fd ?files0 = map fd files" by (simp add: comp_def)
  have pre: "\<forall>si \<in> set ?files0. sink_ok input st si \<and> pos_to_write si = source_pos_read st
                          \<and> (fd si \<in> ?S \<longrightarrow> active si)"
  proof
    fix s assume "s \<in> set ?files0"
    then obtain si where si: "si \<in> set files" "s = si\<lparr>pos_to_write := source_pos_read st\<rparr>"
      by auto
    from sinks si have "sink_ok input st s" by (simp add: sink_ok_def)
    moreover from selected_is_active [OF dist si(1), of st rdy] si(2)
    have "fd s \<in> ?S \<longrightarrow> active s" by auto
    ultimately show "sink_ok input st s \<and> pos_to_write s = source_pos_read st
                          \<and> (fd s \<in> ?S \<longrightarrow> active s)"
      using si(2) by simp
  qed
  from dist have dist0: "distinct (map fd ?files0)" unfolding fds0 .
  from write_loop_ok [OF pool bound pre dist0 loop]
  have sinks1: "\<forall>si \<in> set files'. sink_ok input st1 si" by simp
  from pool_ok_frame [OF write_loop_frame [OF loop]] pool have pool1: "pool_ok input st1"
    by simp
  note keep = write_loop_keeps [OF loop]
  from write_loop_fields [OF loop] have "map fd files' = map fd files"
    by (simp add: comp_def)
  with dist have dist': "distinct (map fd files')" by simp
  let ?A = "pos_written ` {s \<in> set files'. active s}"
  from write_loop_min_pos [OF loop] have m: "min_pos = Min (insert (source_pos_read st) ?A)" .
  have fin: "finite (insert (source_pos_read st) ?A)" by simp
  from pool1 have pb: "pool_begin st1 * buffer_size st1 \<le> source_pos_read st1"
    by (simp add: pool_ok_def)
  have "\<forall>a \<in> insert (source_pos_read st) ?A. pool_begin st1 * buffer_size st1 \<le> a"
    using sinks1 pb keep(4) by (auto simp: sink_ok_def)
  with fin have lo: "pool_begin st1 * buffer_size st1 \<le> min_pos"
    unfolding m by (subst Min_ge_iff) auto
  have hi: "min_pos \<le> source_pos_read st1"
    unfolding m using keep(4) by simp
  have act: "min_pos \<le> pos_written s" if "s \<in> set files'" "active s" for s
    unfolding m using that by (intro Min_le) auto
  from memory_free_pool_ok [OF pool1 lo hi] have pool': "pool_ok input st'"
    and pb': "pool_begin st' * buffer_size st1 \<le> min_pos"
    by (simp_all add: st')
  have "sink_ok input st' s" if "s \<in> set files'" for s
    using sinks1 that pb' act [OF that]
    by (auto simp: sink_ok_def st' memory_free_fields)
  with rep eof dist' pool' keep show ?thesis
    by (simp add: replicate_inv_def st' memory_free_fields)
qed

lemma sink_ok_later:
  assumes "sink_ok input st si" and "source_pos_read st \<le> source_pos_read st'"
    and "outs st' = outs st" and "pool_begin st' = pool_begin st"
    and "buffer_size st' = buffer_size st"
  shows "sink_ok input st' si"
  using assms by (simp add: sink_ok_def)

lemma iteration_cases:
  assumes "iteration e (files, eof, st) = Continue c'"
  obtains files1 written st1 where
    "sink_write (wr e) (set (map fd (filter (pending st) files)) \<inter> ready e) files st
       = Inr (files1, written, st1)"
    and "c' = (files1, eof, st1)
         \<or> (\<not> eof \<and> (\<exists>n st2. source_read (alloc_ok e) (rd e) st1 = Inr (n, st2)
                          \<and> c' = (files1, n = 0, st2)))"
proof (cases "sink_write (wr e) (set (map fd (filter (pending st) files)) \<inter> ready e) files st")
  case (Inl f)
  with assms show ?thesis
    by (simp add: iteration_def Let_def split: if_splits)
next
  case (Inr r)
  obtain files1 written st1 where r: "r = (files1, written, st1)"
    by (cases r)
  show ?thesis
  proof (cases "written > 0 \<or> \<not> (\<not> eof \<and> stdin_ready e)")
    case True
    with assms Inr r have "c' = (files1, eof, st1)"
      by (auto simp: iteration_def Let_def split: if_splits)
    with Inr r that show ?thesis by blast
  next
    case False
    with assms Inr r obtain n st2 where
      "source_read (alloc_ok e) (rd e) st1 = Inr (n, st2)" "c' = (files1, n = 0, st2)"
      by (auto simp: iteration_def Let_def split: if_splits sum.splits)
    with False Inr r that show ?thesis by blast
  qed
qed

lemma iteration_not_Return: "iteration e c \<noteq> Return n c'"
  by (auto simp: iteration_def Let_def split: prod.splits sum.splits if_splits)

lemma iteration_inv:
  assumes inv: "replicate_inv input (files, eof, st)" and bound: "int (length input) < 2 ^ 63"
    and it: "iteration e (files, eof, st) = Continue c'"
  shows "replicate_inv input c'"
  using it
proof (rule iteration_cases)
  fix files1 written st1
  assume sw: "sink_write (wr e) (set (map fd (filter (pending st) files)) \<inter> ready e) files st
                = Inr (files1, written, st1)"
    and c': "c' = (files1, eof, st1)
         \<or> (\<not> eof \<and> (\<exists>n st2. source_read (alloc_ok e) (rd e) st1 = Inr (n, st2)
                          \<and> c' = (files1, n = 0, st2)))"
  from sink_write_inv [OF inv bound sw] have inv1: "replicate_inv input (files1, eof, st1)" .
  from c' show ?thesis
  proof (elim disjE conjE exE)
    assume "c' = (files1, eof, st1)"
    with inv1 show ?thesis by simp
  next
    fix n st2
    assume "\<not> eof" and rd: "source_read (alloc_ok e) (rd e) st1 = Inr (n, st2)"
      and c: "c' = (files1, n = 0, st2)"
    from inv1 have rep: "\<not> opt_scatter st1" and dist: "distinct (map fd files1)"
      and pool: "pool_ok input st1" and sinks: "\<forall>si \<in> set files1. sink_ok input st1 si"
      by (simp_all add: replicate_inv_def)
    note r = source_read_pool_ok [OF pool rd]
    from sinks have "\<forall>si \<in> set files1. sink_ok input st2 si"
      using sink_ok_later [OF _ r(3,4,5,6)] by blast
    with rep dist r(1,2,7) show ?thesis
      by (simp add: replicate_inv_def c)
  qed
qed

lemma run_inv:
  assumes "replicate_inv input c" and "int (length input) < 2 ^ 63"
    and "run es c = Return n c'"
  shows "n = 0 \<and> replicate_inv input c' \<and> finished c'"
  using assms
proof (induction es arbitrary: c)
  case Nil
  then show ?case by (simp split: if_splits)
next
  case (Cons e es)
  show ?case
  proof (cases "finished c")
    case True
    with Cons.prems show ?thesis by simp
  next
    case False
    obtain files eof st where c: "c = (files, eof, st)" by (cases c)
    show ?thesis
    proof (cases "iteration e c")
      case (Continue c1)
      with False Cons.prems(3) have "run es c1 = Return n c'" by simp
      moreover from iteration_inv [OF Cons.prems(1) [unfolded c] Cons.prems(2)] Continue c
      have "replicate_inv input c1" by simp
      ultimately show ?thesis
        using Cons.IH Cons.prems(2) by blast
    next
      case (Return x y)
      with iteration_not_Return show ?thesis by blast
    next
      case (Abort f)
      with False Cons.prems(3) show ?thesis by simp
    qed
  qed
qed

lemma sink_write_fds:
  assumes "sink_write wa fds files st = Inr (files', written, st')"
  shows "map fd files' = map fd files"
proof -
  from assms obtain files1 min_pos st1 where
    "allocate_data_to_sinks st fds files = Inr files1"
    "write_loop wa fds files1 (source_pos_read st) 0 st = Inr (files', min_pos, written, st1)"
    by (auto simp: sink_write_def write_pass_def split: sum.splits)
  with allocate_fields write_loop_fields show ?thesis by metis
qed

lemma run_fds:
  "run es (files, eof, st) = Return n (files', eof', st') \<Longrightarrow> map fd files' = map fd files"
proof (induction es arbitrary: files eof st)
  case Nil
  then show ?case by (simp split: if_splits)
next
  case (Cons e es)
  show ?case
  proof (cases "finished (files, eof, st)")
    case True
    with Cons.prems show ?thesis by simp
  next
    case False
    show ?thesis
    proof (cases "iteration e (files, eof, st)")
      case (Continue c1)
      obtain files1 eof1 st1 where c1: "c1 = (files1, eof1, st1)" by (cases c1)
      from Continue have "map fd files1 = map fd files"
        by (rule iteration_cases) (use c1 in \<open>auto dest: sink_write_fds\<close>)
      moreover from False Cons.prems Continue c1
      have "run es (files1, eof1, st1) = Return n (files', eof', st')" by simp
      ultimately show ?thesis using Cons.IH by metis
    next
      case (Return x y)
      with iteration_not_Return show ?thesis by blast
    next
      case (Abort f)
      with False Cons.prems show ?thesis by simp
    qed
  qed
qed

lemma open_files_Inr:
  "open_files args = Inr files \<Longrightarrow>
     map fd files = map snd args
       \<and> (\<forall>si \<in> set files. pos_written si = 0 \<and> pos_to_write si = 0 \<and> active si)"
proof (induction args arbitrary: files)
  case Nil
  then show ?case by simp
next
  case (Cons a args)
  obtain nm d where a: "a = (nm, d)" by (cases a)
  from Cons.prems a obtain tl where tl: "open_files args = Inr tl"
    and files: "files = \<lparr>name = nm, fd = d, pos_written = 0, pos_to_write = 0, active = True\<rparr> # tl"
    by (auto simp: cons_sink_eq_Inr split: if_splits)
  from Cons.IH [OF tl] files a show ?case by simp
qed

lemma init_inv:
  assumes "0 < b" and "distinct (map snd args)" and "open_files args = Inr files"
  shows "replicate_inv input (files, False, init_tee b False line input)"
proof -
  from open_files_Inr [OF assms(3)] have fds: "map fd files = map snd args"
    and zero: "\<forall>si \<in> set files. pos_written si = 0 \<and> active si" by simp_all
  have "pool_ok input (init_tee b False line input)"
    using assms(1) by (auto simp: pool_ok_def init_tee_def)
  moreover have "\<forall>si \<in> set files. sink_ok input (init_tee b False line input) si"
    using zero by (simp add: sink_ok_def init_tee_def)
  ultimately show ?thesis
    using assms(2) fds by (simp add: replicate_inv_def init_tee_def)
qed

text \<open>
  No \<^verbatim>\<open>write\<close> of a run in replicate mode takes a byte of the pool that is freed or was
  never read: under the invariant, the window of an active sink lies between the start
  of the pool and \<open>source_pos_read\<close>.
\<close>

lemma read_bytes_defined:
  "(\<forall>k<n. chunk (off + int k) \<noteq> None) \<Longrightarrow> read_bytes chunk off n \<noteq> None"
proof (induction n arbitrary: off)
  case 0
  then show ?case by simp
next
  case (Suc n)
  from Suc.prems [rule_format, of 0] obtain c where c: "chunk off = Some c" by auto
  have "\<forall>k<n. chunk (off + 1 + int k) \<noteq> None"
  proof (intro allI impI)
    fix k assume "k < n"
    with Suc.prems [rule_format, of "Suc k"] show "chunk (off + 1 + int k) \<noteq> None"
      by (simp add: ac_simps)
  qed
  from Suc.IH [OF this] c show ?case by auto
qed

lemma sink_write_one_defined:
  assumes pool: "pool_ok input st" and sk: "sink_ok input st si" and act: "active si"
    and ptw: "pos_to_write si = source_pos_read st"
    and bound: "int (length input) < 2 ^ 63"
  shows "sink_write_one wa si st \<noteq> Inl Undefined_read"
proof (cases "wa (fd si)")
  case (Write_failed e)
  then show ?thesis
    by (simp add: sink_write_one_def split: prod.splits)
next
  case (Write_ok k)
  let ?b = "buffer_size st"
  let ?pw = "pos_written si"
  let ?spr = "source_pos_read st"
  from pool have b: "0 < ?b" and spr: "?spr \<le> int (length input)"
    and valid: "\<And>pos. pool_begin st * ?b \<le> pos \<Longrightarrow> pos < ?spr
                  \<Longrightarrow> sink_pointer st pos = Some (input ! nat pos)"
    by (simp_all add: pool_ok_def)
  from sk act have pw: "0 \<le> ?pw" "?pw \<le> ?spr" and live: "pool_begin st * ?b \<le> ?pw"
    by (simp_all add: sink_ok_def)
  have "0 \<le> ?spr - ?pw" "?spr - ?pw < 2 ^ 64"
    using pw spr bound by simp_all
  then have st: "size_t (pos_to_write si - ?pw) = ?spr - ?pw"
    by (simp add: size_t_def ptw)
  define sz where "sz = min (?b - ?pw mod ?b) (?spr - ?pw)"
  define n where "n = min (int k) sz"
  have sb: "sink_buffer st si = ((?pw div ?b, ?pw mod ?b), sz)"
    by (simp add: sink_buffer_def Let_def st sz_def)
  have nle: "n \<le> ?spr - ?pw" "?pw mod ?b + n \<le> ?b"
    by (simp_all add: n_def sz_def)
  have "buffers st (?pw div ?b) (?pw mod ?b + int j) \<noteq> None" if "j < nat n" for j
  proof -
    from that have j: "?pw mod ?b + int j < ?b" "?pw + int j < ?spr"
      using nle by linarith+
    from chunk_of_add [OF b _ j(1)] have
      "(?pw + int j) div ?b = ?pw div ?b" "(?pw + int j) mod ?b = ?pw mod ?b + int j"
      by simp_all
    moreover from valid [of "?pw + int j"] live j(2)
    have "sink_pointer st (?pw + int j) = Some (input ! nat (?pw + int j))" by simp
    ultimately show ?thesis
      using pw(1) by (simp add: sink_pointer_def)
  qed
  then have "read_bytes (buffers st (?pw div ?b)) (?pw mod ?b) (nat n) \<noteq> None"
    by (intro read_bytes_defined) simp
  with Write_ok sb show ?thesis
    by (auto simp: sink_write_one_def Let_def n_def)
qed

lemma cons_result_eq_Inl: "cons_result si r = Inl f \<longleftrightarrow> r = Inl f"
  by (cases r) auto

lemma write_loop_defined:
  assumes "pool_ok input st" and "int (length input) < 2 ^ 63"
    and "\<forall>si \<in> set sis. sink_ok input st si \<and> pos_to_write si = source_pos_read st
                          \<and> (fd si \<in> fds \<longrightarrow> active si)"
    and "distinct (map fd sis)"
  shows "write_loop wa fds sis m w st \<noteq> Inl Undefined_read"
  using assms
proof (induction sis arbitrary: m w st)
  case Nil
  then show ?case by simp
next
  case (Cons si rest)
  from Cons.prems(3) have si: "sink_ok input st si" "pos_to_write si = source_pos_read st"
    "fd si \<in> fds \<Longrightarrow> active si"
    and rest: "\<forall>r \<in> set rest. sink_ok input st r \<and> pos_to_write r = source_pos_read st
                          \<and> (fd r \<in> fds \<longrightarrow> active r)"
    by simp_all
  from Cons.prems(4) have dist: "fd si \<notin> fd ` set rest" "distinct (map fd rest)"
    by simp_all
  show ?case
  proof (cases "fd si \<in> fds")
    case False
    with Cons.IH [OF Cons.prems(1,2) rest dist(2)] show ?thesis
      by (simp add: cons_result_eq_Inl)
  next
    case True
    show ?thesis
    proof (cases "sink_write_one wa si st")
      case (Inl f)
      with sink_write_one_defined [OF Cons.prems(1) si(1) si(3) [OF True] si(2) Cons.prems(2), of wa]
      have "f \<noteq> Undefined_read" by auto
      with True Inl show ?thesis by simp
    next
      case (Inr r)
      obtain si1 n st1 where r: "r = (si1, n, st1)" by (cases r)
      with Inr have one: "sink_write_one wa si st = Inr (si1, n, st1)" by simp
      note keeps = sink_write_one_keeps [OF one]
      from pool_ok_frame [OF sink_write_one_frame [OF one]] Cons.prems(1)
      have pool1: "pool_ok input st1" by simp
      have rest1: "\<forall>r \<in> set rest. sink_ok input st1 r \<and> pos_to_write r = source_pos_read st1
                          \<and> (fd r \<in> fds \<longrightarrow> active r)"
      proof
        fix r assume r: "r \<in> set rest"
        with dist(1) have "fd r \<noteq> fd si" by (metis imageI)
        from sink_write_one_other_outs [OF one this]
        have "outs st1 (fd r) = outs st (fd r)" .
        from sink_ok_frame [OF keeps(4) keeps(8) keeps(1) this, of input] r rest keeps(4)
        show "sink_ok input st1 r \<and> pos_to_write r = source_pos_read st1
                          \<and> (fd r \<in> fds \<longrightarrow> active r)" by simp
      qed
      from Cons.IH [OF pool1 Cons.prems(2) rest1 dist(2)] True one show ?thesis
        by (simp add: cons_result_eq_Inl)
    qed
  qed
qed

lemma sink_write_defined:
  assumes inv: "replicate_inv input (files, eof, st)" and bound: "int (length input) < 2 ^ 63"
  shows "sink_write wa (set (map fd (filter (pending st) files)) \<inter> rdy) files st
           \<noteq> Inl Undefined_read"
proof -
  let ?S = "set (map fd (filter (pending st) files)) \<inter> rdy"
  let ?files0 = "map (\<lambda>si. si\<lparr>pos_to_write := source_pos_read st\<rparr>) files"
  from inv have rep: "\<not> opt_scatter st" and dist: "distinct (map fd files)"
    and pool: "pool_ok input st" and sinks: "\<forall>si \<in> set files. sink_ok input st si"
    by (simp_all add: replicate_inv_def)
  have fds0: "map fd ?files0 = map fd files" by (simp add: comp_def)
  have pre: "\<forall>si \<in> set ?files0. sink_ok input st si \<and> pos_to_write si = source_pos_read st
                          \<and> (fd si \<in> ?S \<longrightarrow> active si)"
  proof
    fix s assume "s \<in> set ?files0"
    then obtain si where si: "si \<in> set files" "s = si\<lparr>pos_to_write := source_pos_read st\<rparr>"
      by auto
    from sinks si have "sink_ok input st s" by (simp add: sink_ok_def)
    moreover from selected_is_active [OF dist si(1), of st rdy] si(2)
    have "fd s \<in> ?S \<longrightarrow> active s" by auto
    ultimately show "sink_ok input st s \<and> pos_to_write s = source_pos_read st
                          \<and> (fd s \<in> ?S \<longrightarrow> active s)"
      using si(2) by simp
  qed
  from dist have dist0: "distinct (map fd ?files0)" unfolding fds0 .
  from write_loop_defined [OF pool bound pre dist0, of wa "source_pos_read st" 0]
  have "write_loop wa ?S ?files0 (source_pos_read st) 0 st \<noteq> Inl Undefined_read" .
  with rep show ?thesis
    by (auto simp: sink_write_def write_pass_def allocate_replicate split: sum.splits)
qed

lemma source_read_defined: "source_read al r st \<noteq> Inl Undefined_read"
  by (auto simp: source_read_def source_buffer_def memory_allocate_def Let_def
      split: sum.splits read_result.splits prod.splits if_splits)

lemma iteration_defined:
  assumes inv: "replicate_inv input (files, eof, st)" and bound: "int (length input) < 2 ^ 63"
  shows "iteration e (files, eof, st) \<noteq> Abort Undefined_read"
proof (cases "sink_write (wr e) (set (map fd (filter (pending st) files)) \<inter> ready e) files st")
  case (Inl f)
  with sink_write_defined [OF inv bound, of "wr e" "ready e"] have "f \<noteq> Undefined_read"
    by auto
  with Inl show ?thesis
    by (simp add: iteration_def Let_def)
next
  case (Inr r)
  obtain files1 written st1 where r: "r = (files1, written, st1)" by (cases r)
  show ?thesis
  proof (cases "source_read (alloc_ok e) (rd e) st1")
    case (Inl f)
    with source_read_defined [of "alloc_ok e" "rd e" st1] have "f \<noteq> Undefined_read" by auto
    with Inl Inr r show ?thesis
      by (simp add: iteration_def Let_def)
  next
    case (Inr x)
    with \<open>sink_write (wr e) (set (map fd (filter (pending st) files)) \<inter> ready e) files st = Inr r\<close>
      r show ?thesis
      by (simp add: iteration_def Let_def split: prod.splits)
  qed
qed

lemma run_defined:
  assumes "replicate_inv input c" and "int (length input) < 2 ^ 63"
  shows "run es c \<noteq> Abort Undefined_read"
  using assms
proof (induction es arbitrary: c)
  case Nil
  then show ?case by simp
next
  case (Cons e es)
  obtain files eof st where c: "c = (files, eof, st)" by (cases c)
  show ?case
  proof (cases "finished c")
    case True
    then show ?thesis by simp
  next
    case False
    show ?thesis
    proof (cases "iteration e c")
      case (Continue c1)
      from iteration_inv [OF Cons.prems(1) [unfolded c] Cons.prems(2)] Continue c
      have "replicate_inv input c1" by simp
      from Cons.IH [OF this Cons.prems(2)] False Continue show ?thesis by simp
    next
      case (Return x y)
      with False show ?thesis by simp
    next
      case (Abort f)
      with iteration_defined [OF Cons.prems(1) [unfolded c] Cons.prems(2), of e] c
      have "f \<noteq> Undefined_read" by auto
      with False Abort show ?thesis by simp
    qed
  qed
qed

lemma open_files_defined: "open_files args \<noteq> Inl Undefined_read"
proof (induction args)
  case Nil
  then show ?case by simp
next
  case (Cons a args)
  obtain nm d where a: "a = (nm, d)" by (cases a)
  from Cons.IH show ?case
    by (cases "open_files args") (simp_all add: a cons_sink_def)
qed

text \<open>
  C1, as stated, fails when the reader of a sink has gone. Replicate mode, one output
  file, the input \<open>ab\<close>: the two bytes are read, the \<^verbatim>\<open>write\<close> fails with \<^verbatim>\<open>EPIPE\<close>, the
  sink becomes inactive, end of file is read, and the program ends with status 0 while
  the sink has received nothing.
\<close>

theorem replicate_broken_pipe_sink_incomplete:
  "(case main 4 False False True [(''a'', 3)] ''ab''
           [env_ready {3} (\<lambda>_. Write_failed EPIPE) 4095,
            env_ready {3} (\<lambda>_. Write_failed EPIPE) 4095] of
      Return n (fs, eof, st) \<Rightarrow> n = 0 \<and> outs st 3 = [] \<and> map active fs = [False]
    | _ \<Rightarrow> False)"
  by code_simp

text \<open>
  C1, amended. Replicate mode, a positive buffer size, output files opened on pairwise
  different descriptors, an input shorter than \<open>2 ^ 63\<close> bytes. Whatever the operating
  system answers, no \<^verbatim>\<open>write\<close> of the run is handed a byte of the pool that has been freed
  or has not been read from the standard input. When the program ends, it ends with
  status 0; every sink has then received exactly the first \<open>pos_written\<close> bytes of the
  input, and every sink that is still active has received exactly the input.
\<close>

theorem replicate_active_sinks_receive_input:
  assumes "0 < b" and "distinct (map snd args)" and "int (length input) < 2 ^ 63"
  shows "main b False line malloc_ok args input es \<noteq> Abort Undefined_read
     \<and> (\<forall>n files eof st.
          main b False line malloc_ok args input es = Return n (files, eof, st) \<longrightarrow>
            n = 0 \<and> map fd files = map snd args
            \<and> (\<forall>si \<in> set files. outs st (fd si) = take (nat (pos_written si)) input
                                  \<and> (active si \<longrightarrow> outs st (fd si) = input)))"
proof (rule conjI)
  show "main b False line malloc_ok args input es \<noteq> Abort Undefined_read"
  proof (cases "open_files args")
    case (Inl f)
    with open_files_defined [of args] have "f \<noteq> Undefined_read" by auto
    with Inl show ?thesis
      by (simp add: main_def)
  next
    case (Inr files0)
    from run_defined [OF init_inv [OF assms(1,2) Inr] assms(3), of es line] Inr
    show ?thesis
      by (simp add: main_def)
  qed
next
  have "n = 0 \<and> map fd files = map snd args
     \<and> (\<forall>si \<in> set files. outs st (fd si) = take (nat (pos_written si)) input
                           \<and> (active si \<longrightarrow> outs st (fd si) = input))"
    if ret: "main b False line malloc_ok args input es = Return n (files, eof, st)"
    for n files eof st
  proof -
    from ret obtain files0 where op: "open_files args = Inr files0"
      and run: "run es (files0, False, init_tee b False line input) = Return n (files, eof, st)"
      by (auto simp: main_def split: if_splits sum.splits)
    from run_inv [OF init_inv [OF assms(1,2) op] assms(3) run]
    have n: "n = 0" and inv: "replicate_inv input (files, eof, st)"
      and fin: "finished (files, eof, st)" by simp_all
    from run_fds [OF run] open_files_Inr [OF op] have fds: "map fd files = map snd args"
      by simp
    from inv have pool: "pool_ok input st" and sinks: "\<forall>si \<in> set files. sink_ok input st si"
      and eof: "eof \<longrightarrow> stdin_rest st = []"
      by (simp_all add: replicate_inv_def)
    from fin have ended: "eof" "\<forall>si \<in> set files. \<not> pending st si"
      by (simp_all add: finished_def filter_empty_conv)
    from pool eof ended(1) have all_read: "source_pos_read st = int (length input)"
      by (auto simp: pool_ok_def)
    have "outs st (fd si) = take (nat (pos_written si)) input
            \<and> (active si \<longrightarrow> outs st (fd si) = input)" if "si \<in> set files" for si
    proof -
      from sinks that have ok: "sink_ok input st si" by simp
      then have out: "outs st (fd si) = take (nat (pos_written si)) input"
        by (simp add: sink_ok_def)
      moreover have "outs st (fd si) = input" if "active si"
      proof -
        from ended(2) \<open>si \<in> set files\<close> that have "\<not> pos_written si < source_pos_read st"
          by (auto simp: pending_def)
        with ok all_read have "pos_written si = int (length input)"
          by (simp add: sink_ok_def)
        with out show ?thesis by simp
      qed
      ultimately show ?thesis by simp
    qed
    with n fds show ?thesis by blast
  qed
  then show "\<forall>n files eof st.
          main b False line malloc_ok args input es = Return n (files, eof, st) \<longrightarrow>
            n = 0 \<and> map fd files = map snd args
            \<and> (\<forall>si \<in> set files. outs st (fd si) = take (nat (pos_written si)) input
                                  \<and> (active si \<longrightarrow> outs st (fd si) = input))"
    by (intro allI impI)
qed

theorem replicate_active_sinks_receive_input_witness:
  "\<exists>files eof st.
     main 4 False False True [(''a'', 3), (''b'', 4)] hello_world
       (replicate 7 (env_ready {3, 4} (\<lambda>_. Write_ok 4096) 4095)) = Return 0 (files, eof, st)
     \<and> map fd files = [3, 4] \<and> outs st 3 = hello_world \<and> outs st 4 = hello_world"
proof -
  define r where "r = main 4 False False True [(''a'', 3), (''b'', 4)] hello_world
       (replicate 7 (env_ready {3, 4} (\<lambda>_. Write_ok 4096) 4095))"
  have "case r of Return n (fs, eof, st) \<Rightarrow> n = 0 \<and> map active fs = [True, True]
        | _ \<Rightarrow> False"
    unfolding r_def by code_simp
  then obtain files eof st where r: "r = Return 0 (files, eof, st)"
    and act: "map active files = [True, True]"
    by (cases r) (auto split: prod.splits)
  have h: "(0::int) < 4" "distinct (map snd [(''a'', 3::int), (''b'', 4)])"
    "int (length hello_world) < 2 ^ 63"
    by (simp_all add: hello_world_def)
  from replicate_active_sinks_receive_input [OF h, THEN conjunct2, rule_format,
      OF r [unfolded r_def]]
  have fds: "map fd files = [3, 4]"
    and all: "\<And>si. si \<in> set files \<Longrightarrow> active si \<Longrightarrow> outs st (fd si) = hello_world"
    by (simp, blast)
  from fds obtain s1 s2 where files: "files = [s1, s2]" "fd s1 = 3" "fd s2 = 4"
    by (cases files; cases "tl files") auto
  with act have "active s1" "active s2" by simp_all
  with all [of s1] all [of s2] files have o: "outs st 3 = hello_world" "outs st 4 = hello_world"
    by simp_all
  show ?thesis
    by (intro exI [of _ files] exI [of _ eof] exI [of _ st] conjI)
       (rule r [unfolded r_def] fds o)+
qed

end
